theory Spec2Isabelle
  imports Complex_Main "HOL-Library.Log_Nat"
begin

section \<open>JavaScript numbers and typed-array stores\<close>

text \<open>
  A JavaScript \<^verbatim>\<open>number\<close> is an IEEE 754 binary64 value. The finite ones are modelled as
  the rationals they denote, and every arithmetic operation of the source is the exact
  operation followed by \<open>fl\<close>, rounding to the nearest binary64 value (53-bit significand,
  ties to even). The exponent range is not bounded: overflow to \<^verbatim>\<open>Infinity\<close>, subnormals
  and \<^verbatim>\<open>NaN\<close> are outside the model, so \<open>contrast\<close> is a finite number.

  \<open>toUint8Clamp\<close> is the conversion a \<^verbatim>\<open>Uint8ClampedArray\<close> applies on every store
  (ECMAScript \<^verbatim>\<open>ToUint8Clamp\<close>): clamp to \<open>[0, 255]\<close>, then round to the nearest integer
  with ties to the even one.
\<close>

definition round_half_even :: "'a::floor_ceiling \<Rightarrow> int" where
  "round_half_even v =
     (let f = \<lfloor>v\<rfloor> in
      if v < of_int f + 1/2 then f
      else if v > of_int f + 1/2 then f + 1
      else if even f then f else f + 1)"

definition toUint8Clamp :: "'a::floor_ceiling \<Rightarrow> nat" where
  "toUint8Clamp v = nat (round_half_even (max 0 (min 255 v)))"

text \<open>\<open>binade x\<close> is the exponent \<open>e\<close> with \<open>2\<^sup>e \<le> \<bar>x\<bar> < 2\<^sup>e\<^sup>+\<^sup>1\<close>, for \<open>x \<noteq> 0\<close>.\<close>

definition binade :: "rat \<Rightarrow> int" where
  "binade x =
     (let (p, q) = quotient_of \<bar>x\<bar>;
          k = int (floorlog 2 (nat p)) - int (floorlog 2 (nat q))
      in if 2 powi k \<le> \<bar>x\<bar> then k else k - 1)"

definition fl :: "rat \<Rightarrow> rat" where
  "fl x = (if x = 0 then 0
           else let u = 2 powi (binade x - 52)
                in of_int (round_half_even (x / u)) * u)"

section \<open>Data model\<close>

text \<open>
  \<^verbatim>\<open>StencilSettings\<close> and \<^verbatim>\<open>ProcessingResult\<close> of the source. \<open>threshold\<close> and
  \<open>lineThickness\<close> are the integers the sliders produce; \<open>mode\<close> is the string found at run
  time, which the TypeScript type confines to three literals. A result field holds the
  raster that \<^verbatim>\<open>toDataURL('image/png')\<close> encodes (PNG is lossless), or nothing.
\<close>

record stencilSettings =
  threshold :: int
  contrast :: rat
  lineThickness :: int
  invert :: bool
  mode :: string

text \<open>
  An \<^verbatim>\<open>ImageData\<close>: \<open>width * height\<close> pixels of four channel bytes R, G, B, A, row-major.
  The canvas bitmap and a decoded image have the same shape.
\<close>

record raster =
  width :: nat
  height :: nat
  data :: "nat list"

record processingResult =
  solidStencil :: "raster option"
  blackWhite :: "raster option"
  lineSketch :: "raster option"

text \<open>The one way \<^verbatim>\<open>processImage\<close> rejects: \<^verbatim>\<open>new Error('Failed to load image')\<close>.\<close>

datatype error = FailedToLoadImage

text \<open>
  A raster is well formed when its buffer has four bytes for each pixel; it is opaque
  when every alpha byte is 255.
\<close>

definition wf_raster :: "raster \<Rightarrow> bool" where
  "wf_raster r \<longleftrightarrow>
     length (data r) = 4 * (width r * height r) \<and> (\<forall>b \<in> set (data r). b \<le> 255)"

definition opaque :: "raster \<Rightarrow> bool" where
  "opaque r \<longleftrightarrow> (\<forall>p < width r * height r. data r ! (4 * p + 3) = 255)"

section \<open>The canvas\<close>

text \<open>
  The 2D context operations the source calls, after the HTML canvas specification. A
  pixel of alpha 255 is stored and read back exactly. The bitmap of a browser holds
  premultiplied colour, so what a pixel of lower alpha reads back as depends on the
  browser. \<open>drawImage\<close> composites with the default source-over rule: an opaque source
  pixel replaces the destination, a fully transparent source pixel leaves the
  destination, and what a partially transparent source pixel becomes is left to the
  browser: the parameter \<open>blend\<close>, whose result is stored as four bytes.
  \<open>putImageData\<close> stores the four bytes of a pixel as they are written. This is exact for
  a pixel of alpha 255, for the alpha byte of every pixel, and for a pixel that is
  written back as it was read, or with R, G and B set to 0. The colour bytes that a
  browser returns for any other pixel written with alpha below 255 are not modelled
  (for alpha 0 they are 0). Where a property below equates a returned picture with a
  computed buffer, the image is therefore opaque, and in the line sketch, whose border
  is written with alpha 0, the pixel is interior and nothing is dilated.
\<close>

type_synonym blend = "nat list \<Rightarrow> nat list \<Rightarrow> nat \<times> nat \<times> nat \<times> nat"

definition pixelAt :: "raster \<Rightarrow> nat \<Rightarrow> nat \<Rightarrow> nat list" where
  "pixelAt r x y = map (\<lambda>k. data r ! (4 * (y * width r + x) + k)) [0..<4]"

definition blank :: "nat \<Rightarrow> nat \<Rightarrow> raster" where
  "blank w h = \<lparr>width = w, height = h, data = replicate (4 * (w * h)) 0\<rparr>"

definition over :: "blend \<Rightarrow> nat list \<Rightarrow> nat list \<Rightarrow> nat list" where
  "over blend src dst =
     (if src ! 3 = 255 then src
      else if src ! 3 = 0 then dst
      else (case blend src dst of (r, g, b, a) \<Rightarrow> [min 255 r, min 255 g, min 255 b, min 255 a]))"

definition drawImage :: "blend \<Rightarrow> raster \<Rightarrow> raster \<Rightarrow> raster" where
  "drawImage blend img c =
     c\<lparr>data := concat (map (\<lambda>p.
        let x = p mod width c; y = p div width c
        in if x < width img \<and> y < height img
           then over blend (pixelAt img x y) (pixelAt c x y)
           else pixelAt c x y) [0..<width c * height c])\<rparr>"

definition getImageData :: "raster \<Rightarrow> nat \<Rightarrow> nat \<Rightarrow> raster" where
  "getImageData c sw sh =
     \<lparr>width = sw, height = sh,
      data = concat (map (\<lambda>p.
        let x = p mod sw; y = p div sw
        in if x < width c \<and> y < height c then pixelAt c x y else [0, 0, 0, 0])
        [0..<sw * sh])\<rparr>"

definition putImageData :: "raster \<Rightarrow> raster \<Rightarrow> raster" where
  "putImageData im c =
     c\<lparr>data := concat (map (\<lambda>p.
        let x = p mod width c; y = p div width c
        in if x < width im \<and> y < height im then pixelAt im x y else pixelAt c x y)
        [0..<width c * height c])\<rparr>"

definition toDataURL :: "raster \<Rightarrow> raster" where
  "toDataURL c = c"

text \<open>A blending rule for the examples: source-over on straight alpha, rounded down.\<close>

definition sourceOver :: blend where
  "sourceOver src dst =
     (let sa = src ! 3; da = dst ! 3; a = sa + da * (255 - sa) div 255;
          mix = (\<lambda>k. (src ! k * sa + dst ! k * da * (255 - sa) div 255) div a)
      in (mix 0, mix 1, mix 2, a))"

section \<open>The pixel loops\<close>

text \<open>
  \<^verbatim>\<open>for (let i = 0; i < data.length; i += 4)\<close> visits \<open>pixelStarts\<close>. The length of an
  \<^verbatim>\<open>ImageData\<close> buffer is a multiple of four, so every read \<open>d ! (i + k)\<close> below is in
  range; a store out of range is ignored by a typed array as by \<open>list_update\<close>.
\<close>

definition pixelStarts :: "nat list \<Rightarrow> nat list" where
  "pixelStarts d = map (\<lambda>k. 4 * k) [0..<(length d + 3) div 4]"

definition setRGB :: "nat \<Rightarrow> nat \<Rightarrow> nat list \<Rightarrow> nat list" where
  "setRGB i v d = d[i := v, i + 1 := v, i + 2 := v]"

definition setRGBA :: "nat \<Rightarrow> nat \<Rightarrow> nat \<Rightarrow> nat list \<Rightarrow> nat list" where
  "setRGBA i v a d = d[i := v, i + 1 := v, i + 2 := v, i + 3 := a]"

text \<open>
  \<^verbatim>\<open>data[i] * 0.299 + data[i + 1] * 0.587 + data[i + 2] * 0.114\<close>: the literals are the
  nearest binary64 values, every product and sum is rounded.
\<close>

definition luminance :: "nat \<Rightarrow> nat \<Rightarrow> nat \<Rightarrow> rat" where
  "luminance r g b =
     fl (fl (fl (of_nat r * fl (299/1000)) + fl (of_nat g * fl (587/1000)))
         + fl (of_nat b * fl (114/1000)))"

text \<open>\<^verbatim>\<open>((gray / 255 - 0.5) * settings.contrast + 0.5) * 255\<close>\<close>

definition contrastAdjust :: "rat \<Rightarrow> rat \<Rightarrow> rat" where
  "contrastAdjust c gray = fl (fl (fl (fl (fl (gray / 255) - 1/2) * c) + 1/2) * 255)"

text \<open>
  The body of the loop of \<^verbatim>\<open>applyStencilEffect\<close>: the number stored into R, G and B
  (\<open>255 - stencilValue\<close> is exact, both values being 0 or 255).
\<close>

definition stencilFinalValue :: "stencilSettings \<Rightarrow> nat \<Rightarrow> nat \<Rightarrow> nat \<Rightarrow> rat" where
  "stencilFinalValue s r g b =
     (let gray = luminance r g b;
          contrasted = contrastAdjust (contrast s) gray;
          stencilValue = (if contrasted > of_int (threshold s) then 255 else 0)
      in if invert s then 255 - stencilValue else stencilValue)"

definition applyStencilEffect :: "nat list \<Rightarrow> stencilSettings \<Rightarrow> nat list" where
  "applyStencilEffect d s =
     fold (\<lambda>i d. setRGB i
             (toUint8Clamp (stencilFinalValue s (d ! i) (d ! (i + 1)) (d ! (i + 2)))) d)
       (pixelStarts d) d"

text \<open>The body of the loop of \<^verbatim>\<open>createBlackWhiteDesign\<close>.\<close>

definition bwFinalValue :: "stencilSettings \<Rightarrow> nat \<Rightarrow> nat \<Rightarrow> nat \<Rightarrow> rat" where
  "bwFinalValue s r g b =
     (let gray = luminance r g b;
          contrasted = contrastAdjust (contrast s) gray;
          finalGray = max 0 (min 255 contrasted)
      in if invert s then fl (255 - finalGray) else finalGray)"

definition bwLoop :: "nat list \<Rightarrow> stencilSettings \<Rightarrow> nat list" where
  "bwLoop d s =
     fold (\<lambda>i d. setRGB i
             (toUint8Clamp (bwFinalValue s (d ! i) (d ! (i + 1)) (d ! (i + 2)))) d)
       (pixelStarts d) d"

text \<open>The grayscale copy of \<^verbatim>\<open>createLineSketch\<close>, a fresh zero-filled array.\<close>

definition grayLoop :: "nat list \<Rightarrow> nat list" where
  "grayLoop d =
     fold (\<lambda>i grayData.
             setRGBA i (toUint8Clamp (luminance (d ! i) (d ! (i + 1)) (d ! (i + 2))))
               (d ! (i + 3)) grayData)
       (pixelStarts d) (replicate (length d) 0)"

section \<open>Sobel edge detection\<close>

definition sobelX :: "int list list" where
  "sobelX = [[-1, 0, 1], [-2, 0, 2], [-1, 0, 1]]"

definition sobelY :: "int list list" where
  "sobelY = [[-1, -2, -1], [0, 0, 0], [1, 2, 1]]"

text \<open>The two inner loops over \<open>ky\<close> and \<open>kx\<close>: the pair \<open>(gx, gy)\<close>.\<close>

definition sobelSums :: "nat list \<Rightarrow> nat \<Rightarrow> nat \<Rightarrow> nat \<Rightarrow> int \<times> int" where
  "sobelSums d w x y =
     fold (\<lambda>ky acc.
        fold (\<lambda>kx (gx, gy).
           let pixelIndex = nat (((int y + ky) * int w + (int x + kx)) * 4);
               pixelValue = int (d ! pixelIndex)
           in (gx + pixelValue * sobelX ! nat (ky + 1) ! nat (kx + 1),
               gy + pixelValue * sobelY ! nat (ky + 1) ! nat (kx + 1)))
          [-1..1] acc)
       [-1..1] (0, 0)"

text \<open>
  \<^verbatim>\<open>Math.min(255, Math.sqrt(gx * gx + gy * gy))\<close> stored into the result array. With
  \<open>n = gx\<^sup>2 + gy\<^sup>2\<close> an integer, the stored byte is at least \<open>k\<close> exactly when
  \<open>(2k - 1)\<^sup>2 \<le> 4n\<close>, for \<open>k \<le> 255\<close>; the square root is never half-way between two
  integers, and no closer to it than \<open>10\<^sup>-\<^sup>4\<close> for the sums that occur, so the rounding
  of \<^verbatim>\<open>Math.sqrt\<close> does not show. \<open>magnitude_real\<close> is the same byte written with the real
  square root.
\<close>

fun nearestSqrtUpto :: "nat \<Rightarrow> nat \<Rightarrow> nat" where
  "nearestSqrtUpto 0 n = 0"
| "nearestSqrtUpto (Suc k) n =
     (if (2 * k + 1) ^ 2 \<le> 4 * n then Suc k else nearestSqrtUpto k n)"

definition magnitudeByte :: "int \<Rightarrow> int \<Rightarrow> nat" where
  "magnitudeByte gx gy = nearestSqrtUpto 255 (nat (gx * gx + gy * gy))"

definition magnitude_real :: "int \<Rightarrow> int \<Rightarrow> nat" where
  "magnitude_real gx gy = toUint8Clamp (min 255 (sqrt (real_of_int (gx * gx + gy * gy))))"

definition applySobelEdgeDetection :: "nat list \<Rightarrow> nat \<Rightarrow> nat \<Rightarrow> nat list" where
  "applySobelEdgeDetection d w h =
     fold (\<lambda>y result.
        fold (\<lambda>x result.
           let (gx, gy) = sobelSums d w x y;
               normalizedMagnitude = magnitudeByte gx gy;
               pixelIndex = (y * w + x) * 4
           in setRGBA pixelIndex normalizedMagnitude (d ! (pixelIndex + 3)) result)
          [1..<w - 1] result)
       [1..<h - 1] (replicate (length d) 0)"

text \<open>The threshold loop of \<^verbatim>\<open>createLineSketch\<close>: black lines on white.\<close>

definition lineFinalValue :: "stencilSettings \<Rightarrow> nat \<Rightarrow> rat" where
  "lineFinalValue s edgeStrength =
     (let lineValue = (if int edgeStrength > threshold s then 0 else 255)
      in if invert s then 255 - lineValue else lineValue)"

definition thresholdLoop :: "nat list \<Rightarrow> stencilSettings \<Rightarrow> nat list" where
  "thresholdLoop e s =
     fold (\<lambda>i e. setRGB i (toUint8Clamp (lineFinalValue s (e ! i))) e) (pixelStarts e) e"

text \<open>
  What \<^verbatim>\<open>createLineSketch\<close> hands to \<^verbatim>\<open>putImageData\<close>: grayscale, Sobel, threshold.
\<close>

definition sketchEdgeData :: "nat list \<Rightarrow> nat \<Rightarrow> nat \<Rightarrow> stencilSettings \<Rightarrow> nat list" where
  "sketchEdgeData d w h s = thresholdLoop (applySobelEdgeDetection (grayLoop d) w h) s"

section \<open>Line thickness\<close>

text \<open>
  \<^verbatim>\<open>applyLineThickness\<close>: the four nested loops read \<open>originalData\<close>, the copy made
  before the first store, and write \<open>d\<close>, the live buffer.
\<close>

definition dilate :: "int \<Rightarrow> nat \<Rightarrow> nat \<Rightarrow> nat list \<Rightarrow> nat list" where
  "dilate thickness w h d =
     (let originalData = d in
      fold (\<lambda>y d.
        fold (\<lambda>x d.
          let index = (y * w + x) * 4 in
          if originalData ! index = 0 then
            fold (\<lambda>dy d.
              fold (\<lambda>dx d.
                let nx = int x + dx; ny = int y + dy in
                if nx \<ge> 0 \<and> nx < int w \<and> ny \<ge> 0 \<and> ny < int h
                then setRGB (nat ((ny * int w + nx) * 4)) 0 d
                else d)
               [- thickness + 1..thickness - 1] d)
              [- thickness + 1..thickness - 1] d
          else d)
         [0..<w] d)
        [0..<h] d)"

definition applyLineThickness :: "int \<Rightarrow> raster \<Rightarrow> raster" where
  "applyLineThickness thickness c =
     (if thickness \<le> 1 then c
      else let imageData = getImageData c (width c) (height c);
               d = dilate thickness (width c) (height c) (data imageData)
           in putImageData (imageData\<lparr>data := d\<rparr>) c)"

section \<open>The three transforms and the dispatcher\<close>

text \<open>
  Each transform takes the shared canvas and returns the encoded picture with the canvas
  as it leaves it.
\<close>

definition createSolidStencil ::
  "blend \<Rightarrow> raster \<Rightarrow> stencilSettings \<Rightarrow> raster \<Rightarrow> raster \<times> raster" where
  "createSolidStencil blend img s c =
     (let c1 = drawImage blend img c;
          imageData = getImageData c1 (width img) (height img);
          d = applyStencilEffect (data imageData) s;
          c2 = putImageData (imageData\<lparr>data := d\<rparr>) c1;
          c3 = (if lineThickness s > 1 then applyLineThickness (lineThickness s) c2 else c2)
      in (toDataURL c3, c3))"

definition createBlackWhiteDesign ::
  "blend \<Rightarrow> raster \<Rightarrow> stencilSettings \<Rightarrow> raster \<Rightarrow> raster \<times> raster" where
  "createBlackWhiteDesign blend img s c =
     (let c1 = drawImage blend img c;
          imageData = getImageData c1 (width img) (height img);
          d = bwLoop (data imageData) s;
          c2 = putImageData (imageData\<lparr>data := d\<rparr>) c1
      in (toDataURL c2, c2))"

definition createLineSketch ::
  "blend \<Rightarrow> raster \<Rightarrow> stencilSettings \<Rightarrow> raster \<Rightarrow> raster \<times> raster" where
  "createLineSketch blend img s c =
     (let c1 = drawImage blend img c;
          imageData = getImageData c1 (width img) (height img);
          edgeData = sketchEdgeData (data imageData) (width img) (height img) s;
          c2 = putImageData \<lparr>width = width img, height = height img, data = edgeData\<rparr> c1;
          c3 = (if lineThickness s > 1 then applyLineThickness (lineThickness s) c2 else c2)
      in (toDataURL c3, c3))"

text \<open>
  \<^verbatim>\<open>processImage\<close>: the decoded image is \<open>Some img\<close>, \<open>None\<close> when the browser fires
  \<^verbatim>\<open>onerror\<close>. Assigning \<^verbatim>\<open>canvas.width\<close> and \<^verbatim>\<open>canvas.height\<close> clears the bitmap to
  transparent black.
\<close>

definition emptyResult :: processingResult where
  "emptyResult = \<lparr>solidStencil = None, blackWhite = None, lineSketch = None\<rparr>"

definition processImage ::
  "blend \<Rightarrow> raster option \<Rightarrow> stencilSettings \<Rightarrow> error + processingResult" where
  "processImage blend imageFile s =
     (case imageFile of
        None \<Rightarrow> Inl FailedToLoadImage
      | Some img \<Rightarrow>
          let c = blank (width img) (height img);
              result = emptyResult
          in if mode s = ''solid-stencil'' then
               Inr (result\<lparr>solidStencil := Some (fst (createSolidStencil blend img s c))\<rparr>)
             else if mode s = ''black-white'' then
               (let (bw, c1) = createBlackWhiteDesign blend img s c;
                    (ls, c2) = createLineSketch blend img s c1
                in Inr (result\<lparr>blackWhite := Some bw, lineSketch := Some ls\<rparr>))
             else if mode s = ''line-sketch'' then
               Inr (result\<lparr>lineSketch := Some (fst (createLineSketch blend img s c))\<rparr>)
             else Inr result)"

definition outputs :: "processingResult \<Rightarrow> raster set" where
  "outputs r = set_option (solidStencil r) \<union> set_option (blackWhite r) \<union> set_option (lineSketch r)"

section \<open>Notions used to state the properties\<close>

text \<open>
  Pixel \<open>(x, y)\<close> of a \<open>w\<close>-wide buffer starts at byte \<open>4 * (y * w + x)\<close>. It is interior
  when its 3 by 3 neighbourhood lies inside the image: the loops of the Sobel stage
  visit exactly these pixels.
\<close>

definition interior :: "nat \<Rightarrow> nat \<Rightarrow> nat \<Rightarrow> nat \<Rightarrow> bool" where
  "interior w h x y \<longleftrightarrow> 1 \<le> x \<and> x + 1 < w \<and> 1 \<le> y \<and> y + 1 < h"

text \<open>
  A pixel is black, for the dilation, when its red byte is zero (the test
  \<^verbatim>\<open>originalData[index] === 0\<close>); \<open>nearBlack\<close> says that a black pixel of the buffer lies
  within \<open>thickness - 1\<close> of \<open>(x, y)\<close> in both directions.
\<close>

definition black :: "nat list \<Rightarrow> nat \<Rightarrow> nat \<Rightarrow> nat \<Rightarrow> bool" where
  "black d w x y \<longleftrightarrow> d ! (4 * (y * w + x)) = 0"

definition nearBlack :: "int \<Rightarrow> nat list \<Rightarrow> nat \<Rightarrow> nat \<Rightarrow> nat \<Rightarrow> nat \<Rightarrow> bool" where
  "nearBlack t d w h x y \<longleftrightarrow>
     (\<exists>x' < w. \<exists>y' < h. black d w x' y'
        \<and> \<bar>int x - int x'\<bar> \<le> t - 1 \<and> \<bar>int y - int y'\<bar> \<le> t - 1)"

text \<open>\<open>paintedFrom d0 S d\<close>: the buffer \<open>d\<close> is \<open>d0\<close> with the bytes at \<open>S\<close> set to zero.\<close>

definition paintedFrom :: "nat list \<Rightarrow> nat set \<Rightarrow> nat list \<Rightarrow> bool" where
  "paintedFrom d0 S d \<longleftrightarrow>
     length d = length d0 \<and> (\<forall>j < length d0. d ! j = (if j \<in> S then 0 else d0 ! j))"

text \<open>The bytes the loops of \<open>dilate\<close> set to zero.\<close>

definition paintedBy :: "int \<Rightarrow> nat \<Rightarrow> nat \<Rightarrow> nat list \<Rightarrow> nat set" where
  "paintedBy thickness w h d0 =
     (\<Union>y \<in> set [0..<h]. \<Union>x \<in> set [0..<w].
        if d0 ! ((y * w + x) * 4) = 0 then
          (\<Union>dy \<in> set [- thickness + 1..thickness - 1].
           \<Union>dx \<in> set [- thickness + 1..thickness - 1].
             if int x + dx \<ge> 0 \<and> int x + dx < int w \<and> int y + dy \<ge> 0 \<and> int y + dy < int h
             then {nat (((int y + dy) * int w + (int x + dx)) * 4),
                   nat (((int y + dy) * int w + (int x + dx)) * 4) + 1,
                   nat (((int y + dy) * int w + (int x + dx)) * 4) + 2}
             else {})
        else {})"

text \<open>Every element of a buffer is a byte.\<close>

definition bytes :: "nat list \<Rightarrow> bool" where
  "bytes d \<longleftrightarrow> (\<forall>b \<in> set d. b \<le> 255)"

text \<open>
  The byte the source's grayscale copy holds for pixel \<open>(x, y)\<close> of the buffer \<open>d\<close>.
\<close>

definition grayByte :: "nat list \<Rightarrow> nat \<Rightarrow> nat \<Rightarrow> nat \<Rightarrow> int" where
  "grayByte d w x y =
     int (toUint8Clamp (luminance (d ! (4 * (y * w + x))) (d ! (4 * (y * w + x) + 1))
                          (d ! (4 * (y * w + x) + 2))))"

section \<open>The formulas of the specification\<close>

text \<open>
  Modelled from the spec: section 4.1 of the specification gives the luminance
  \<open>L = 0.299 R + 0.587 G + 0.114 B\<close> and the contrast-adjusted value
  \<open>C = clamp(((L / 255 - 0.5) * contrast + 0.5) * 255, 0, 255)\<close> as formulas over the
  real numbers; section 4.2 thresholds \<open>C\<close>. They are written here in exact arithmetic,
  to be compared with what the source computes.
\<close>

definition spec_L :: "nat \<Rightarrow> nat \<Rightarrow> nat \<Rightarrow> rat" where
  "spec_L r g b = 299/1000 * of_nat r + 587/1000 * of_nat g + 114/1000 * of_nat b"

definition spec_C :: "rat \<Rightarrow> nat \<Rightarrow> nat \<Rightarrow> nat \<Rightarrow> rat" where
  "spec_C c r g b = max 0 (min 255 (((spec_L r g b / 255 - 1/2) * c + 1/2) * 255))"

definition spec_solid :: "stencilSettings \<Rightarrow> nat \<Rightarrow> nat \<Rightarrow> nat \<Rightarrow> nat" where
  "spec_solid s r g b =
     (let v = (if spec_C (contrast s) r g b > of_int (threshold s) then 255 else 0)
      in if invert s then 255 - v else v)"

text \<open>
  Modelled from the spec: the two Sobel kernels of section 4.4 and the weighted sum of a
  3 by 3 neighbourhood, \<open>K[ky][kx]\<close> weighing the neighbour at offset
  \<open>(kx - 1, ky - 1)\<close>.
\<close>

definition Gx :: "int list list" where
  "Gx = [[-1, 0, 1], [-2, 0, 2], [-1, 0, 1]]"

definition Gy :: "int list list" where
  "Gy = [[-1, -2, -1], [0, 0, 0], [1, 2, 1]]"

definition convolve3 :: "int list list \<Rightarrow> (nat \<Rightarrow> nat \<Rightarrow> 'a::comm_ring_1) \<Rightarrow> nat \<Rightarrow> nat \<Rightarrow> 'a" where
  "convolve3 K p x y = (\<Sum>ky < 3. \<Sum>kx < 3. of_int (K ! ky ! kx) * p (x + kx - 1) (y + ky - 1))"


section \<open>Example inputs\<close>

text \<open>
  The settings the application starts with, and settings at the top of the threshold
  slider with no dilation.
\<close>

definition defaultSettings :: stencilSettings where
  "defaultSettings = \<lparr>threshold = 128, contrast = 3/2, lineThickness = 2, invert = False,
                       mode = ''solid-stencil''\<rparr>"

definition hardSettings :: stencilSettings where
  "hardSettings = \<lparr>threshold = 255, contrast = 3, lineThickness = 1, invert = False,
                    mode = ''solid-stencil''\<rparr>"

text \<open>Pictures of one opaque pixel: the colour (0, 66, 147), and white.\<close>

definition onePixel :: raster where
  "onePixel = \<lparr>width = 1, height = 1, data = [0, 66, 147, 255]\<rparr>"

definition whitePixel :: raster where
  "whitePixel = \<lparr>width = 1, height = 1, data = [255, 255, 255, 255]\<rparr>"

text \<open>A white, opaque 20 by 20 picture with one black pixel at \<open>(7, 5)\<close>.\<close>

definition singleDot :: raster where
  "singleDot = \<lparr>width = 20, height = 20,
                 data = (replicate 1600 255)[428 := 0, 429 := 0, 430 := 0]\<rparr>"

text \<open>
  A 3 by 3 opaque picture, black but for the pixel \<open>(2, 2)\<close> of colour (1, 1, 1), and
  settings for the line sketch with threshold 1 and no dilation.
\<close>

definition cornerDot :: raster where
  "cornerDot = \<lparr>width = 3, height = 3,
     data = [0, 0, 0, 255,  0, 0, 0, 255,  0, 0, 0, 255,
             0, 0, 0, 255,  0, 0, 0, 255,  0, 0, 0, 255,
             0, 0, 0, 255,  0, 0, 0, 255,  1, 1, 1, 255]\<rparr>"

definition sketchSettings :: stencilSettings where
  "sketchSettings = \<lparr>threshold = 1, contrast = 3/2, lineThickness = 1, invert = False,
                      mode = ''line-sketch''\<rparr>"

text \<open>
  Further pictures of one opaque pixel: gray level 3, the colour (0, 80, 110) and the
  colour (200, 100, 50); settings of contrast 1 with threshold 3, and of contrast 1
  for the black and white picture.
\<close>

definition grayPixel :: raster where
  "grayPixel = \<lparr>width = 1, height = 1, data = [3, 3, 3, 255]\<rparr>"

definition bluePixel :: raster where
  "bluePixel = \<lparr>width = 1, height = 1, data = [0, 80, 110, 255]\<rparr>"

definition rustPixel :: raster where
  "rustPixel = \<lparr>width = 1, height = 1, data = [200, 100, 50, 255]\<rparr>"

definition lowSettings :: stencilSettings where
  "lowSettings = \<lparr>threshold = 3, contrast = 1, lineThickness = 1, invert = False,
                   mode = ''solid-stencil''\<rparr>"

definition plainSettings :: stencilSettings where
  "plainSettings = \<lparr>threshold = 128, contrast = 1, lineThickness = 1, invert = False,
                     mode = ''black-white''\<rparr>"

section \<open>Rounding to binary64\<close>

lemma powi_mono2: "a \<le> b \<Longrightarrow> (2::rat) powi a \<le> 2 powi b"
  by (rule power_int_increasing) simp_all

lemma binade_bounds:
  assumes "x \<noteq> 0"
  shows "2 powi (binade x) \<le> \<bar>x\<bar>" and "\<bar>x\<bar> < 2 powi (binade x + 1)"
proof -
  obtain p q where pq: "quotient_of \<bar>x\<bar> = (p, q)" by (cases "quotient_of \<bar>x\<bar>")
  have q: "q > 0" using pq quotient_of_denom_pos by blast
  have xe: "\<bar>x\<bar> = of_int p / of_int q" using pq quotient_of_div by blast
  have p: "p > 0"
  proof -
    have "0 < \<bar>x\<bar>" using assms by simp
    then have "0 < (of_int p :: rat) / of_int q" using xe by simp
    then show ?thesis using q by (simp add: zero_less_divide_iff)
  qed
  define a where "a = floorlog 2 (nat p)"
  define b where "b = floorlog 2 (nat q)"
  have pa: "2 ^ (a - 1) \<le> nat p" "nat p < 2 ^ a"
    using floorlog_bounds[of "nat p" 2] p by (auto simp: a_def)
  have qb: "2 ^ (b - 1) \<le> nat q" "nat q < 2 ^ b"
    using floorlog_bounds[of "nat q" 2] q by (auto simp: b_def)
  have a0: "a > 0" using p by (simp add: a_def floorlog_def)
  have b0: "b > 0" using q by (simp add: b_def floorlog_def)
  have pr: "(2::rat) ^ (a - 1) \<le> of_int p" "(of_int p :: rat) < 2 ^ a"
  proof -
    have "int (2 ^ (a - 1)) \<le> int (nat p)" using pa(1) by (simp only: of_nat_le_iff)
    then have "(2::int) ^ (a - 1) \<le> p" using p by simp
    then have "(of_int ((2::int) ^ (a - 1)) :: rat) \<le> of_int p" by (simp only: of_int_le_iff)
    then show "(2::rat) ^ (a - 1) \<le> of_int p" by simp
    have "int (nat p) < int (2 ^ a)" using pa(2) by (simp only: of_nat_less_iff)
    then have "p < 2 ^ a" using p by simp
    then have "(of_int p :: rat) < of_int (2 ^ a)" by (simp only: of_int_less_iff)
    then show "(of_int p :: rat) < 2 ^ a" by simp
  qed
  have qr: "(2::rat) ^ (b - 1) \<le> of_int q" "(of_int q :: rat) < 2 ^ b"
  proof -
    have "int (2 ^ (b - 1)) \<le> int (nat q)" using qb(1) by (simp only: of_nat_le_iff)
    then have "(2::int) ^ (b - 1) \<le> q" using q by simp
    then have "(of_int ((2::int) ^ (b - 1)) :: rat) \<le> of_int q" by (simp only: of_int_le_iff)
    then show "(2::rat) ^ (b - 1) \<le> of_int q" by simp
    have "int (nat q) < int (2 ^ b)" using qb(2) by (simp only: of_nat_less_iff)
    then have "q < 2 ^ b" using q by simp
    then have "(of_int q :: rat) < of_int (2 ^ b)" by (simp only: of_int_less_iff)
    then show "(of_int q :: rat) < 2 ^ b" by simp
  qed
  define k where "k = int a - int b"
  have bk: "binade x = (if 2 powi k \<le> \<bar>x\<bar> then k else k - 1)"
    by (simp add: binade_def pq k_def a_def b_def Let_def)
  have qpos: "(0::rat) < of_int q" using q by simp
  have up: "\<bar>x\<bar> < 2 powi (k + 1)"
  proof -
    have "(2::rat) powi (k + 1) = 2 ^ a / 2 ^ (b - 1)"
    proof -
      have "k + 1 = int a - int (b - 1)" using b0 by (simp add: k_def)
      then show ?thesis by (simp add: power_int_diff)
    qed
    moreover have "of_int p / of_int q < (2::rat) ^ a / 2 ^ (b - 1)"
    proof (rule frac_less)
      show "(0::rat) \<le> of_int p" using p by simp
      show "(of_int p :: rat) < 2 ^ a" by (rule pr(2))
      show "(0::rat) < 2 ^ (b - 1)" by simp
      show "(2::rat) ^ (b - 1) \<le> of_int q" by (rule qr(1))
    qed
    ultimately show ?thesis using xe by simp
  qed
  have lo: "2 powi (k - 1) \<le> \<bar>x\<bar>"
  proof -
    have "(2::rat) powi (k - 1) = 2 ^ (a - 1) / 2 ^ b"
    proof -
      have "k - 1 = int (a - 1) - int b" using a0 by (simp add: k_def)
      then show ?thesis by (simp add: power_int_diff)
    qed
    moreover have "(2::rat) ^ (a - 1) / 2 ^ b \<le> of_int p / of_int q"
    proof (rule frac_le)
      show "(0::rat) \<le> of_int p" using p by simp
      show "(2::rat) ^ (a - 1) \<le> of_int p" by (rule pr(1))
      show "(0::rat) < of_int q" by (rule qpos)
      show "(of_int q :: rat) \<le> 2 ^ b" using qr(2) by simp
    qed
    ultimately show ?thesis using xe by simp
  qed
  show "2 powi (binade x) \<le> \<bar>x\<bar>" using bk lo by auto
  show "\<bar>x\<bar> < 2 powi (binade x + 1)" using bk up by (auto simp: not_le)
qed

lemma binade_unique:
  assumes "2 powi e \<le> \<bar>x\<bar>" and "\<bar>x\<bar> < 2 powi (e + 1)"
  shows "binade x = e"
proof -
  have x0: "x \<noteq> 0"
  proof
    assume "x = 0"
    then have "(2::rat) powi e \<le> 0" using assms(1) by simp
    moreover have "(0::rat) < 2 powi e" by simp
    ultimately show False by simp
  qed
  note b = binade_bounds[OF x0]
  have "\<not> e + 1 \<le> binade x"
  proof
    assume "e + 1 \<le> binade x"
    then have "(2::rat) powi (e + 1) \<le> 2 powi (binade x)" by (rule powi_mono2)
    then show False using b(1) assms(2) by simp
  qed
  moreover have "\<not> binade x + 1 \<le> e"
  proof
    assume "binade x + 1 \<le> e"
    then have "(2::rat) powi (binade x + 1) \<le> 2 powi e" by (rule powi_mono2)
    then show False using b(2) assms(1) by simp
  qed
  ultimately show ?thesis by simp
qed

lemma fl_eqI:
  assumes "2 powi e \<le> \<bar>x\<bar>" and "\<bar>x\<bar> < 2 powi (e + 1)"
  shows "fl x = of_int (round_half_even (x / 2 powi (e - 52))) * 2 powi (e - 52)"
proof -
  have "binade x = e" using assms by (rule binade_unique)
  moreover have "x \<noteq> 0"
  proof
    assume "x = 0"
    then have "(2::rat) powi e \<le> 0" using assms(1) by simp
    moreover have "(0::rat) < 2 powi e" by simp
    ultimately show False by simp
  qed
  ultimately show ?thesis by (simp add: fl_def Let_def)
qed

lemma round_half_even_near:
  fixes v :: "'a::floor_ceiling"
  assumes "\<bar>v - of_int k\<bar> < 1/2"
  shows "round_half_even v = k"
proof -
  have lo: "of_int k - 1/2 < v" and hi: "v < of_int k + 1/2"
    using assms abs_less_iff[of "v - of_int k" "1/2"] by linarith+
  have fk: "\<lfloor>v\<rfloor> = k \<or> \<lfloor>v\<rfloor> = k - 1"
  proof -
    have "v < of_int (k + 1)" using hi by simp
    then have "\<lfloor>v\<rfloor> < k + 1" by (simp only: floor_less_iff)
    moreover have "of_int (k - 1) \<le> v" using lo by simp
    then have "k - 1 \<le> \<lfloor>v\<rfloor>" by (simp only: le_floor_iff)
    ultimately show ?thesis by linarith
  qed
  then show ?thesis
  proof
    assume "\<lfloor>v\<rfloor> = k"
    then show ?thesis using hi by (simp add: round_half_even_def)
  next
    assume "\<lfloor>v\<rfloor> = k - 1"
    then show ?thesis using lo by (simp add: round_half_even_def)
  qed
qed

lemma round_half_even_tie:
  fixes v :: "'a::floor_ceiling"
  assumes "v = of_int k + 1/2"
  shows "round_half_even v = (if even k then k else k + 1)"
proof -
  have "\<lfloor>v\<rfloor> = k" unfolding assms by (rule floor_unique) simp_all
  then show ?thesis using assms by (simp add: round_half_even_def)
qed

lemma fl_near:
  assumes "2 powi e \<le> \<bar>x\<bar>" and "\<bar>x\<bar> < 2 powi (e + 1)"
    and "\<bar>x / 2 powi (e - 52) - of_int k\<bar> < 1/2"
  shows "fl x = of_int k * 2 powi (e - 52)"
  using fl_eqI[OF assms(1,2)] round_half_even_near[OF assms(3)] by simp

lemma fl_tie:
  assumes "2 powi e \<le> \<bar>x\<bar>" and "\<bar>x\<bar> < 2 powi (e + 1)"
    and "x / 2 powi (e - 52) = of_int k + 1/2"
  shows "fl x = of_int (if even k then k else k + 1) * 2 powi (e - 52)"
  using fl_eqI[OF assms(1,2)] round_half_even_tie[OF assms(3)] by simp

section \<open>Canvas operations on a raster of the canvas size\<close>

lemma length_concat_map4:
  assumes "\<And>p. p < n \<Longrightarrow> length (f p) = 4"
  shows "length (concat (map f [0..<n])) = 4 * n"
  using assms by (induction n) simp_all

lemma nth_concat_map4:
  assumes "\<And>p. p < n \<Longrightarrow> length (f p) = 4" and "p < n" and "k < 4"
  shows "concat (map f [0..<n]) ! (4 * p + k) = f p ! k"
  using assms
proof (induction n)
  case 0
  then show ?case by simp
next
  case (Suc n)
  have len: "length (concat (map f [0..<n])) = 4 * n"
    using Suc.prems(1) by (intro length_concat_map4) simp
  show ?case
  proof (cases "p < n")
    case True
    then have "4 * p + k < 4 * n" using Suc.prems(3) by simp
    then show ?thesis using Suc.IH[OF _ True Suc.prems(3)] Suc.prems(1) len
      by (simp add: nth_append)
  next
    case False
    then have "p = n" using Suc.prems(2) by simp
    then show ?thesis using len by (simp add: nth_append)
  qed
qed

lemma concat_pixels_eq:
  assumes len: "length d = 4 * n"
    and f4: "\<And>p. p < n \<Longrightarrow> length (f p) = 4"
    and fd: "\<And>p k. p < n \<Longrightarrow> k < 4 \<Longrightarrow> f p ! k = d ! (4 * p + k)"
  shows "concat (map f [0..<n]) = d"
proof (rule nth_equalityI)
  show "length (concat (map f [0..<n])) = length d"
    using length_concat_map4[of n f] f4 len by simp
next
  fix i assume "i < length (concat (map f [0..<n]))"
  then have i: "i < 4 * n" using length_concat_map4[of n f] f4 by simp
  define p where "p = i div 4"
  define k where "k = i mod 4"
  have pk: "i = 4 * p + k" "p < n" "k < 4" using i by (auto simp: p_def k_def)
  show "concat (map f [0..<n]) ! i = d ! i"
    unfolding pk(1) using nth_concat_map4[of n f p k] f4 fd pk(2,3) by simp
qed

lemma length_pixelAt: "length (pixelAt r x y) = 4"
  by (simp add: pixelAt_def)

lemma nth_pixelAt: "k < 4 \<Longrightarrow> pixelAt r x y ! k = data r ! (4 * (y * width r + x) + k)"
  by (simp add: pixelAt_def)

lemma pixel_coords:
  fixes p w h :: nat
  assumes "p < w * h"
  shows "p mod w < w" and "p div w < h" and "p div w * w + p mod w = p"
proof -
  have w: "0 < w" using assms by (cases w) simp_all
  show "p mod w < w" using w by simp
  show "p div w < h" using assms w by (simp add: less_mult_imp_div_less mult.commute)
  show "p div w * w + p mod w = p" by simp
qed

lemma getImageData_same:
  assumes "length (data c) = 4 * (width c * height c)"
  shows "getImageData c (width c) (height c) = c"
proof -
  have "concat (map (\<lambda>p. let x = p mod width c; y = p div width c
                          in if x < width c \<and> y < height c then pixelAt c x y else [0, 0, 0, 0])
          [0..<width c * height c]) = data c"
  proof (rule concat_pixels_eq[OF assms])
    fix p assume "p < width c * height c"
    then show "length (let x = p mod width c; y = p div width c
                 in if x < width c \<and> y < height c then pixelAt c x y else [0, 0, 0, 0]) = 4"
      by (simp add: Let_def length_pixelAt)
  next
    fix p k assume p: "p < width c * height c" and k: "k < (4::nat)"
    show "(let x = p mod width c; y = p div width c
           in if x < width c \<and> y < height c then pixelAt c x y else [0, 0, 0, 0]) ! k
          = data c ! (4 * p + k)"
      using pixel_coords[OF p] k by (simp add: Let_def nth_pixelAt)
  qed
  then show ?thesis by (simp add: getImageData_def)
qed

lemma putImageData_same:
  assumes "width im = width c" and "height im = height c"
    and "length (data im) = 4 * (width c * height c)"
  shows "putImageData im c = c\<lparr>data := data im\<rparr>"
proof -
  have "concat (map (\<lambda>p. let x = p mod width c; y = p div width c
                          in if x < width im \<and> y < height im then pixelAt im x y
                             else pixelAt c x y)
          [0..<width c * height c]) = data im"
  proof (rule concat_pixels_eq[OF assms(3)])
    fix p assume "p < width c * height c"
    then show "length (let x = p mod width c; y = p div width c
                 in if x < width im \<and> y < height im then pixelAt im x y else pixelAt c x y) = 4"
      by (simp add: Let_def length_pixelAt)
  next
    fix p k assume p: "p < width c * height c" and k: "k < (4::nat)"
    show "(let x = p mod width c; y = p div width c
           in if x < width im \<and> y < height im then pixelAt im x y else pixelAt c x y) ! k
          = data im ! (4 * p + k)"
      using pixel_coords[OF p] k assms(1,2) by (simp add: Let_def nth_pixelAt)
  qed
  then show ?thesis by (simp add: putImageData_def)
qed

lemma drawImage_replaces:
  assumes dims: "width img = width c" "height img = height c"
    and len: "length (data img) = 4 * (width c * height c)"
    and src: "\<And>p. p < width c * height c \<Longrightarrow> data img ! (4 * p + 3) = 255"
  shows "drawImage blend img c = c\<lparr>data := data img\<rparr>"
proof -
  have "concat (map (\<lambda>p. let x = p mod width c; y = p div width c
                          in if x < width img \<and> y < height img
                             then over blend (pixelAt img x y) (pixelAt c x y)
                             else pixelAt c x y)
          [0..<width c * height c]) = data img"
  proof (rule concat_pixels_eq[OF len])
    fix p assume p: "p < width c * height c"
    have "over blend (pixelAt img (p mod width c) (p div width c))
            (pixelAt c (p mod width c) (p div width c))
          = pixelAt img (p mod width c) (p div width c)"
      using src[OF p] pixel_coords[OF p] dims by (auto simp: over_def nth_pixelAt)
    then show "length (let x = p mod width c; y = p div width c
                 in if x < width img \<and> y < height img
                    then over blend (pixelAt img x y) (pixelAt c x y)
                    else pixelAt c x y) = 4"
      by (simp add: Let_def length_pixelAt)
  next
    fix p k assume p: "p < width c * height c" and k: "k < (4::nat)"
    have "over blend (pixelAt img (p mod width c) (p div width c))
            (pixelAt c (p mod width c) (p div width c))
          = pixelAt img (p mod width c) (p div width c)"
      using src[OF p] pixel_coords[OF p] dims by (auto simp: over_def nth_pixelAt)
    then show "(let x = p mod width c; y = p div width c
           in if x < width img \<and> y < height img
              then over blend (pixelAt img x y) (pixelAt c x y)
              else pixelAt c x y) ! k
          = data img ! (4 * p + k)"
      using pixel_coords[OF p] k dims by (simp add: Let_def nth_pixelAt)
  qed
  then show ?thesis by (simp add: drawImage_def)
qed

lemma drawImage_opaque:
  assumes "width img = width c" and "height img = height c"
    and "length (data img) = 4 * (width c * height c)" and "opaque img"
  shows "drawImage blend img c = c\<lparr>data := data img\<rparr>"
  using assms by (intro drawImage_replaces) (simp_all add: opaque_def)

lemma drawImage_blank:
  assumes "length (data img) = 4 * (width img * height img)" and "opaque img"
  shows "drawImage blend img (blank (width img) (height img)) = img"
proof -
  have "drawImage blend img (blank (width img) (height img))
        = (blank (width img) (height img))\<lparr>data := data img\<rparr>"
    by (rule drawImage_opaque) (simp_all add: blank_def assms)
  then show ?thesis by (simp add: blank_def)
qed

section \<open>The loops, pixel by pixel\<close>

lemma length_setRGB: "length (setRGB i v d) = length d"
  by (simp add: setRGB_def)

lemma length_setRGBA: "length (setRGBA i v a d) = length d"
  by (simp add: setRGBA_def)

lemma nth_setRGB:
  assumes "4 * q + j < length d" and "j < 4"
  shows "setRGB (4 * p) v d ! (4 * q + j) = (if q = p \<and> j < 3 then v else d ! (4 * q + j))"
proof -
  have "4 * q + j = 4 * p \<longleftrightarrow> q = p \<and> j = 0"
    "4 * q + j = 4 * p + 1 \<longleftrightarrow> q = p \<and> j = 1"
    "4 * q + j = 4 * p + 2 \<longleftrightarrow> q = p \<and> j = 2"
    using assms(2) by presburger+
  then show ?thesis using assms by (auto simp: setRGB_def nth_list_update)
qed

lemma nth_setRGBA:
  assumes "4 * q + j < length d" and "j < 4"
  shows "setRGBA (4 * p) v a d ! (4 * q + j)
         = (if q = p then (if j < 3 then v else a) else d ! (4 * q + j))"
proof -
  have "4 * q + j = 4 * p \<longleftrightarrow> q = p \<and> j = 0"
    "4 * q + j = 4 * p + 1 \<longleftrightarrow> q = p \<and> j = 1"
    "4 * q + j = 4 * p + 2 \<longleftrightarrow> q = p \<and> j = 2"
    "4 * q + j = 4 * p + 3 \<longleftrightarrow> q = p \<and> j = 3"
    using assms(2) by presburger+
  then show ?thesis using assms by (auto simp: setRGBA_def nth_list_update)
qed

lemma pixelStarts_eq: "length d = 4 * n \<Longrightarrow> pixelStarts d = map ((*) 4) [0..<n]"
proof -
  assume "length d = 4 * n"
  then have "(length d + 3) div 4 = n" by simp
  then show ?thesis by (simp add: pixelStarts_def)
qed

text \<open>A loop that rewrites R, G and B of each visited pixel from the pixel itself.\<close>

lemma length_fold_inplace:
  "length (fold (\<lambda>i d. setRGB i (f (d ! i) (d ! (i + 1)) (d ! (i + 2))) d) is d) = length d"
  by (induction "is" arbitrary: d) (simp_all add: length_setRGB)

lemma nth_fold_inplace:
  assumes "distinct ps" and "4 * q + 3 < length d" and "k < 4"
  shows "fold (\<lambda>i d. setRGB i (f (d ! i) (d ! (i + 1)) (d ! (i + 2))) d) (map ((*) 4) ps) d
           ! (4 * q + k)
         = (if q \<in> set ps \<and> k < 3 then f (d ! (4 * q)) (d ! (4 * q + 1)) (d ! (4 * q + 2))
            else d ! (4 * q + k))"
  using assms
proof (induction ps arbitrary: d)
  case Nil
  then show ?case by simp
next
  case (Cons p ps)
  define v where "v = f (d ! (4 * p)) (d ! (4 * p + 1)) (d ! (4 * p + 2))"
  define d' where "d' = setRGB (4 * p) v d"
  have len: "length d' = length d" by (simp add: d'_def length_setRGB)
  have q4: "4 * q + j < length d" if "j < 4" for j using Cons.prems(2) that by simp
  have nth': "d' ! (4 * q + j) = (if q = p \<and> j < 3 then v else d ! (4 * q + j))" if "j < 4" for j
    unfolding d'_def using nth_setRGB[OF q4[OF that] that] .
  have ih: "fold (\<lambda>i d. setRGB i (f (d ! i) (d ! (i + 1)) (d ! (i + 2))) d) (map ((*) 4) ps) d'
              ! (4 * q + k)
            = (if q \<in> set ps \<and> k < 3
               then f (d' ! (4 * q)) (d' ! (4 * q + 1)) (d' ! (4 * q + 2))
               else d' ! (4 * q + k))"
    using Cons.IH[of d'] Cons.prems len by simp
  have step: "fold (\<lambda>i d. setRGB i (f (d ! i) (d ! (i + 1)) (d ! (i + 2))) d)
                (map ((*) 4) (p # ps)) d
              = fold (\<lambda>i d. setRGB i (f (d ! i) (d ! (i + 1)) (d ! (i + 2))) d)
                  (map ((*) 4) ps) d'"
    by (simp add: d'_def v_def)
  have pn: "p \<notin> set ps" using Cons.prems(1) by simp
  show ?case
  proof (cases "q \<in> set ps")
    case True
    then have "q \<noteq> p" using pn by auto
    then show ?thesis
      unfolding step ih using True nth'[of 0] nth'[of 1] nth'[of 2] nth'[OF Cons.prems(3)]
      by simp
  next
    case False
    then show ?thesis
      unfolding step ih using nth'[OF Cons.prems(3)] by (auto simp: v_def)
  qed
qed

text \<open>A loop that writes whole pixels computed from data it does not change.\<close>

lemma length_fold_writes:
  "length (fold (\<lambda>a g. setRGBA (4 * tgt a) (v a) (al a) g) xs g) = length g"
  by (induction xs arbitrary: g) (simp_all add: length_setRGBA)

lemma nth_fold_writes_other:
  assumes "\<forall>b \<in> set xs. tgt b \<noteq> q" and "4 * q + k < length g" and "k < 4"
  shows "fold (\<lambda>a g. setRGBA (4 * tgt a) (v a) (al a) g) xs g ! (4 * q + k) = g ! (4 * q + k)"
  using assms
proof (induction xs arbitrary: g)
  case Nil
  then show ?case by simp
next
  case (Cons a xs)
  have "fold (\<lambda>a g. setRGBA (4 * tgt a) (v a) (al a) g) xs (setRGBA (4 * tgt a) (v a) (al a) g)
          ! (4 * q + k)
        = setRGBA (4 * tgt a) (v a) (al a) g ! (4 * q + k)"
    using Cons.prems by (intro Cons.IH) (simp_all add: length_setRGBA)
  then show ?case using Cons.prems by (simp add: nth_setRGBA)
qed

lemma nth_fold_writes:
  assumes "a \<in> set xs" and "inj_on tgt (set xs)" and "4 * tgt a + k < length g" and "k < 4"
  shows "fold (\<lambda>a g. setRGBA (4 * tgt a) (v a) (al a) g) xs g ! (4 * tgt a + k)
         = (if k < 3 then v a else al a)"
  using assms
proof (induction xs arbitrary: g)
  case Nil
  then show ?case by simp
next
  case (Cons b bs)
  define g' where "g' = setRGBA (4 * tgt b) (v b) (al b) g"
  have len: "length g' = length g" by (simp add: g'_def length_setRGBA)
  have inj: "inj_on tgt (set bs)" using Cons.prems(2) by (simp add: inj_on_def)
  show ?case
  proof (cases "a \<in> set bs")
    case True
    then show ?thesis using Cons.IH[OF True inj, of g'] Cons.prems(3,4) len
      by (simp add: g'_def)
  next
    case False
    then have ab: "a = b" using Cons.prems(1) by simp
    have "\<forall>c \<in> set bs. tgt c \<noteq> tgt a"
    proof
      fix c assume c: "c \<in> set bs"
      show "tgt c \<noteq> tgt a"
      proof
        assume "tgt c = tgt a"
        then have "c = a" using Cons.prems(1,2) c by (auto simp: inj_on_def)
        then show False using False c by simp
      qed
    qed
    then have "fold (\<lambda>a g. setRGBA (4 * tgt a) (v a) (al a) g) bs g' ! (4 * tgt a + k)
               = g' ! (4 * tgt a + k)"
      using Cons.prems(3,4) len by (intro nth_fold_writes_other) simp_all
    then show ?thesis using Cons.prems(3,4) ab by (simp add: g'_def nth_setRGBA)
  qed
qed

lemma fold_product:
  "fold (\<lambda>a d. fold (g a) bs d) as d = fold (\<lambda>(a, b). g a b) (List.product as bs) d"
  by (induction as arbitrary: d) (simp_all add: fold_map comp_def)

lemma length_applyStencilEffect: "length (applyStencilEffect d s) = length d"
  unfolding applyStencilEffect_def
  using length_fold_inplace[of "\<lambda>r g b. toUint8Clamp (stencilFinalValue s r g b)"] by simp

lemma nth_applyStencilEffect:
  assumes "length d = 4 * n" and "p < n" and "k < 4"
  shows "applyStencilEffect d s ! (4 * p + k)
         = (if k < 3
            then toUint8Clamp (stencilFinalValue s (d ! (4 * p)) (d ! (4 * p + 1)) (d ! (4 * p + 2)))
            else d ! (4 * p + k))"
proof -
  have "4 * p + 3 < length d" using assms(1,2) by simp
  then show ?thesis
    unfolding applyStencilEffect_def pixelStarts_eq[OF assms(1)]
    using nth_fold_inplace[of "[0..<n]" p d k
        "\<lambda>r g b. toUint8Clamp (stencilFinalValue s r g b)"] assms(2,3)
    by simp
qed

lemma length_bwLoop: "length (bwLoop d s) = length d"
  unfolding bwLoop_def
  using length_fold_inplace[of "\<lambda>r g b. toUint8Clamp (bwFinalValue s r g b)"] by simp

lemma nth_bwLoop:
  assumes "length d = 4 * n" and "p < n" and "k < 4"
  shows "bwLoop d s ! (4 * p + k)
         = (if k < 3
            then toUint8Clamp (bwFinalValue s (d ! (4 * p)) (d ! (4 * p + 1)) (d ! (4 * p + 2)))
            else d ! (4 * p + k))"
proof -
  have "4 * p + 3 < length d" using assms(1,2) by simp
  then show ?thesis
    unfolding bwLoop_def pixelStarts_eq[OF assms(1)]
    using nth_fold_inplace[of "[0..<n]" p d k
        "\<lambda>r g b. toUint8Clamp (bwFinalValue s r g b)"] assms(2,3)
    by simp
qed

lemma length_thresholdLoop: "length (thresholdLoop e s) = length e"
  unfolding thresholdLoop_def
  using length_fold_inplace[of "\<lambda>r g b. toUint8Clamp (lineFinalValue s r)"] by simp

lemma nth_thresholdLoop:
  assumes "length e = 4 * n" and "p < n" and "k < 4"
  shows "thresholdLoop e s ! (4 * p + k)
         = (if k < 3 then toUint8Clamp (lineFinalValue s (e ! (4 * p))) else e ! (4 * p + k))"
proof -
  have "4 * p + 3 < length e" using assms(1,2) by simp
  then show ?thesis
    unfolding thresholdLoop_def pixelStarts_eq[OF assms(1)]
    using nth_fold_inplace[of "[0..<n]" p e k
        "\<lambda>r g b. toUint8Clamp (lineFinalValue s r)"] assms(2,3)
    by simp
qed

lemma grayLoop_fold:
  assumes "length d = 4 * n"
  shows "grayLoop d
         = fold (\<lambda>p g. setRGBA (4 * id p)
               (toUint8Clamp (luminance (d ! (4 * p)) (d ! (4 * p + 1)) (d ! (4 * p + 2))))
               (d ! (4 * p + 3)) g)
             [0..<n] (replicate (length d) 0)"
  unfolding grayLoop_def pixelStarts_eq[OF assms] by (simp add: fold_map comp_def)

lemma length_grayLoop: "length d = 4 * n \<Longrightarrow> length (grayLoop d) = length d"
  by (simp add: grayLoop_fold length_fold_writes)

lemma nth_grayLoop:
  assumes "length d = 4 * n" and "p < n" and "k < 4"
  shows "grayLoop d ! (4 * p + k)
         = (if k < 3
            then toUint8Clamp (luminance (d ! (4 * p)) (d ! (4 * p + 1)) (d ! (4 * p + 2)))
            else d ! (4 * p + 3))"
proof -
  have "4 * id p + k < length (replicate (length d) (0::nat))" using assms by simp
  from nth_fold_writes[where a = p and xs = "[0..<n]" and tgt = id
      and g = "replicate (length d) 0" and k = k
      and v = "\<lambda>p. toUint8Clamp (luminance (d ! (4 * p)) (d ! (4 * p + 1)) (d ! (4 * p + 2)))"
      and al = "\<lambda>p. d ! (4 * p + 3)", OF _ _ this assms(3)] assms(2)
  show ?thesis unfolding grayLoop_fold[OF assms(1)] by simp
qed

text \<open>Pixels of a \<open>w\<close>-wide raster are numbered row by row.\<close>

lemma pixel_number_eq:
  fixes x y x' y' w :: nat
  assumes "x < w" and "x' < w"
  shows "y * w + x = y' * w + x' \<longleftrightarrow> y = y' \<and> x = x'"
proof
  assume eq: "y * w + x = y' * w + x'"
  have "(y * w + x) div w = y" "(y' * w + x') div w = y'"
    using assms by simp_all
  then have "y = y'" using eq by simp
  then show "y = y' \<and> x = x'" using eq by simp
qed simp

lemma pixel_number_less:
  fixes x y w h :: nat
  assumes "x < w" and "y < h"
  shows "y * w + x < w * h"
proof -
  have "y * w + x < y * w + w" using assms(1) by simp
  also have "\<dots> = (y + 1) * w" by simp
  also have "\<dots> \<le> h * w" using assms(2) by (intro mult_le_mono1) simp
  finally show ?thesis by (simp add: mult.commute)
qed

lemma applySobel_fold:
  "applySobelEdgeDetection d w h
   = fold (\<lambda>a g. setRGBA (4 * (fst a * w + snd a))
          (case sobelSums d w (snd a) (fst a) of (gx, gy) \<Rightarrow> magnitudeByte gx gy)
          (d ! (4 * (fst a * w + snd a) + 3)) g)
       (List.product [1..<h - 1] [1..<w - 1]) (replicate (length d) 0)"
proof -
  have "(\<lambda>(y, x) result.
           let (gx, gy) = sobelSums d w x y;
               normalizedMagnitude = magnitudeByte gx gy;
               pixelIndex = (y * w + x) * 4
           in setRGBA pixelIndex normalizedMagnitude (d ! (pixelIndex + 3)) result)
        = (\<lambda>a g. setRGBA (4 * (fst a * w + snd a))
          (case sobelSums d w (snd a) (fst a) of (gx, gy) \<Rightarrow> magnitudeByte gx gy)
          (d ! (4 * (fst a * w + snd a) + 3)) g)"
    by (auto simp: fun_eq_iff Let_def mult.commute split: prod.splits)
  then show ?thesis
    unfolding applySobelEdgeDetection_def fold_product by simp
qed

lemma length_applySobel: "length (applySobelEdgeDetection d w h) = length d"
  by (simp only: applySobel_fold length_fold_writes length_replicate)

lemma nth_applySobel:
  assumes len: "length d = 4 * (w * h)" and x: "x < w" and y: "y < h" and k: "k < 4"
  shows "applySobelEdgeDetection d w h ! (4 * (y * w + x) + k)
         = (if interior w h x y
            then (if k < 3 then (case sobelSums d w x y of (gx, gy) \<Rightarrow> magnitudeByte gx gy)
                  else d ! (4 * (y * w + x) + 3))
            else 0)"
proof -
  let ?as = "List.product [1..<h - 1] [1..<w - 1]"
  let ?tgt = "\<lambda>a::nat \<times> nat. fst a * w + snd a"
  have lt: "4 * (y * w + x) + k < length (replicate (length d) (0::nat))"
    using pixel_number_less[OF x y] k len by simp
  have xs: "snd a < w" if "a \<in> set ?as" for a using that by auto
  show ?thesis
  proof (cases "interior w h x y")
    case True
    then have mem: "(y, x) \<in> set ?as" by (auto simp: interior_def)
    have inj: "inj_on ?tgt (set ?as)"
    proof (rule inj_onI)
      fix a b assume a: "a \<in> set ?as" and b: "b \<in> set ?as" and eq: "?tgt a = ?tgt b"
      from pixel_number_eq[OF xs[OF a] xs[OF b], of "fst a" "fst b"] eq
      show "a = b" by (simp add: prod_eq_iff)
    qed
    from nth_fold_writes[where a = "(y, x)" and xs = ?as and tgt = ?tgt
        and g = "replicate (length d) 0" and k = k
        and v = "\<lambda>a. case sobelSums d w (snd a) (fst a) of (gx, gy) \<Rightarrow> magnitudeByte gx gy"
        and al = "\<lambda>a. d ! (4 * (fst a * w + snd a) + 3)", OF mem inj] lt k True
    show ?thesis unfolding applySobel_fold by simp
  next
    case False
    have "\<forall>b \<in> set ?as. ?tgt b \<noteq> y * w + x"
    proof
      fix b assume b: "b \<in> set ?as"
      show "?tgt b \<noteq> y * w + x"
      proof
        assume "?tgt b = y * w + x"
        with pixel_number_eq[OF xs[OF b] x, of "fst b" y] have "fst b = y" "snd b = x" by simp_all
        then show False using b False by (auto simp: interior_def)
      qed
    qed
    from nth_fold_writes_other[where xs = ?as and tgt = ?tgt and q = "y * w + x" and k = k
        and g = "replicate (length d) 0"
        and v = "\<lambda>a. case sobelSums d w (snd a) (fst a) of (gx, gy) \<Rightarrow> magnitudeByte gx gy"
        and al = "\<lambda>a. d ! (4 * (fst a * w + snd a) + 3)", OF this lt k] lt False
    show ?thesis unfolding applySobel_fold by simp
  qed
qed

section \<open>Dilation\<close>

lemma nth_update_any: "xs[i := v] ! j = (if i = j \<and> i < length xs then v else xs ! j)"
  by (cases "i < length xs") (simp_all add: nth_list_update list_update_beyond)

lemma paintedFrom_setRGB:
  assumes "paintedFrom d0 S d"
  shows "paintedFrom d0 (S \<union> {i, i + 1, i + 2}) (setRGB i 0 d)"
proof -
  have len: "length d = length d0" and nth: "\<And>j. j < length d0 \<Longrightarrow> d ! j = (if j \<in> S then 0 else d0 ! j)"
    using assms by (simp_all add: paintedFrom_def)
  have "setRGB i 0 d ! j = (if j \<in> S \<union> {i, i + 1, i + 2} then 0 else d0 ! j)"
    if "j < length d0" for j
    using that len nth[OF that] by (simp add: setRGB_def nth_update_any)
  then show ?thesis using len by (simp add: paintedFrom_def length_setRGB)
qed

lemma paintedFrom_fold:
  assumes "\<And>a S d. a \<in> set xs \<Longrightarrow> paintedFrom d0 S d \<Longrightarrow> paintedFrom d0 (S \<union> T a) (step a d)"
    and "paintedFrom d0 S d"
  shows "paintedFrom d0 (S \<union> (\<Union>a \<in> set xs. T a)) (fold step xs d)"
  using assms
proof (induction xs arbitrary: S d)
  case Nil
  then show ?case by simp
next
  case (Cons a xs)
  have "paintedFrom d0 (S \<union> T a) (step a d)" using Cons.prems by simp
  then have "paintedFrom d0 ((S \<union> T a) \<union> (\<Union>b \<in> set xs. T b)) (fold step xs (step a d))"
    using Cons.prems(1) by (intro Cons.IH) simp_all
  moreover have "(S \<union> T a) \<union> (\<Union>b \<in> set xs. T b) = S \<union> (\<Union>b \<in> set (a # xs). T b)"
    by auto
  ultimately show ?case by simp
qed

lemma dilate_painted: "paintedFrom d0 (paintedBy thickness w h d0) (dilate thickness w h d0)"
proof -
  have start: "paintedFrom d0 {} d0" by (simp add: paintedFrom_def)
  have "paintedFrom d0 ({} \<union> paintedBy thickness w h d0) (dilate thickness w h d0)"
    unfolding paintedBy_def dilate_def Let_def
  proof (rule paintedFrom_fold[OF _ start], goal_cases)
    case (1 y S d)
    show ?case
    proof (rule paintedFrom_fold[OF _ 1(2)], goal_cases)
      case (1 x S d)
      show ?case
      proof (cases "d0 ! ((y * w + x) * 4) = 0")
        case False
        then show ?thesis using 1(2) by simp
      next
        case True
        have "paintedFrom d0
           (S \<union> (\<Union>dy \<in> set [- thickness + 1..thickness - 1].
                 \<Union>dx \<in> set [- thickness + 1..thickness - 1].
                   if int x + dx \<ge> 0 \<and> int x + dx < int w \<and> int y + dy \<ge> 0
                      \<and> int y + dy < int h
                   then {nat (((int y + dy) * int w + (int x + dx)) * 4),
                         nat (((int y + dy) * int w + (int x + dx)) * 4) + 1,
                         nat (((int y + dy) * int w + (int x + dx)) * 4) + 2}
                   else {}))
           (fold (\<lambda>dy d.
              fold (\<lambda>dx d.
                if int x + dx \<ge> 0 \<and> int x + dx < int w \<and> int y + dy \<ge> 0 \<and> int y + dy < int h
                then setRGB (nat (((int y + dy) * int w + (int x + dx)) * 4)) 0 d
                else d)
               [- thickness + 1..thickness - 1] d)
              [- thickness + 1..thickness - 1] d)"
        proof (rule paintedFrom_fold[OF _ 1(2)], goal_cases)
          case (1 dy S d)
          show ?case
          proof (rule paintedFrom_fold[OF _ 1(2)], goal_cases)
            case (1 dx S d)
            then show ?case using paintedFrom_setRGB[OF 1(2)] by simp
          qed
        qed
        then show ?thesis using True by simp
      qed
    qed
  qed
  then show ?thesis by simp
qed


lemma target_index:
  assumes "0 \<le> nx" and "nx < int w" and "0 \<le> ny" and "x' < w" and "k < 4"
  shows "4 * (y' * w + x') + k \<in>
           {nat ((ny * int w + nx) * 4), nat ((ny * int w + nx) * 4) + 1,
            nat ((ny * int w + nx) * 4) + 2}
         \<longleftrightarrow> k < 3 \<and> int x' = nx \<and> int y' = ny"
proof -
  obtain a where a: "nx = int a" using assms(1) by (metis nat_0_le)
  obtain b where b: "ny = int b" using assms(3) by (metis nat_0_le)
  have aw: "a < w" using assms(2) a by simp
  have "(int b * int w + int a) * 4 = int (4 * (b * w + a))" by simp
  then have n: "nat ((int b * int w + int a) * 4) = 4 * (b * w + a)"
    by (simp only: nat_int)
  define P where "P = y' * w + x'"
  define Q where "Q = b * w + a"
  have "4 * P + k \<in> {4 * Q, 4 * Q + 1, 4 * Q + 2} \<longleftrightarrow> k < 3 \<and> P = Q"
  proof -
    have "4 * P + k = 4 * Q \<longleftrightarrow> P = Q \<and> k = 0"
      "4 * P + k = 4 * Q + 1 \<longleftrightarrow> P = Q \<and> k = 1"
      "4 * P + k = 4 * Q + 2 \<longleftrightarrow> P = Q \<and> k = 2"
      using assms(5) by presburger+
    then show ?thesis by auto
  qed
  moreover have "P = Q \<longleftrightarrow> y' = b \<and> x' = a"
    unfolding P_def Q_def by (rule pixel_number_eq[OF assms(4) aw])
  ultimately have "4 * (y' * w + x') + k \<in>
      {4 * (b * w + a), 4 * (b * w + a) + 1, 4 * (b * w + a) + 2}
      \<longleftrightarrow> k < 3 \<and> x' = a \<and> y' = b"
    unfolding P_def Q_def by blast
  then show ?thesis unfolding a b n by simp
qed

lemma mem_paintedBy:
  assumes x': "x' < w" and y': "y' < h" and k: "k < 4"
  shows "4 * (y' * w + x') + k \<in> paintedBy t w h d0 \<longleftrightarrow> k < 3 \<and> nearBlack t d0 w h x' y'"
proof
  assume "4 * (y' * w + x') + k \<in> paintedBy t w h d0"
  then obtain y x dy dx where
    y: "y < h" and x: "x < w" and blk: "d0 ! ((y * w + x) * 4) = 0"
    and dy: "- t + 1 \<le> dy" "dy \<le> t - 1" and dx: "- t + 1 \<le> dx" "dx \<le> t - 1"
    and inb: "int x + dx \<ge> 0" "int x + dx < int w" "int y + dy \<ge> 0" "int y + dy < int h"
    and mem: "4 * (y' * w + x') + k \<in>
      {nat (((int y + dy) * int w + (int x + dx)) * 4),
       nat (((int y + dy) * int w + (int x + dx)) * 4) + 1,
       nat (((int y + dy) * int w + (int x + dx)) * 4) + 2}"
    unfolding paintedBy_def by (auto split: if_splits)
  from target_index[OF inb(1,2,3) x' k, of y'] mem
  have k3: "k < 3" and ex: "int x' = int x + dx" and ey: "int y' = int y + dy" by simp_all
  have "black d0 w x y" using blk by (simp add: black_def mult.commute)
  moreover have "\<bar>int x' - int x\<bar> \<le> t - 1" using ex dx by simp
  moreover have "\<bar>int y' - int y\<bar> \<le> t - 1" using ey dy by simp
  ultimately have "nearBlack t d0 w h x' y'" using x y by (auto simp: nearBlack_def)
  then show "k < 3 \<and> nearBlack t d0 w h x' y'" using k3 by simp
next
  assume r: "k < 3 \<and> nearBlack t d0 w h x' y'"
  then obtain x y where x: "x < w" and y: "y < h" and blk: "black d0 w x y"
    and ax: "\<bar>int x' - int x\<bar> \<le> t - 1" and ay: "\<bar>int y' - int y\<bar> \<le> t - 1"
    by (auto simp: nearBlack_def)
  define dx where "dx = int x' - int x"
  define dy where "dy = int y' - int y"
  have rng: "dx \<in> set [- t + 1..t - 1]" "dy \<in> set [- t + 1..t - 1]"
    using ax ay by (auto simp: dx_def dy_def)
  have inb: "int x + dx \<ge> 0" "int x + dx < int w" "int y + dy \<ge> 0" "int y + dy < int h"
    using x' y' by (simp_all add: dx_def dy_def)
  have mem: "4 * (y' * w + x') + k \<in>
      {nat (((int y + dy) * int w + (int x + dx)) * 4),
       nat (((int y + dy) * int w + (int x + dx)) * 4) + 1,
       nat (((int y + dy) * int w + (int x + dx)) * 4) + 2}"
    using target_index[OF inb(1,2,3) x' k, of y'] r by (simp add: dx_def dy_def)
  have b0: "d0 ! ((y * w + x) * 4) = 0" using blk by (simp add: black_def mult.commute)
  have "4 * (y' * w + x') + k \<in>
     (\<Union>dy \<in> set [- t + 1..t - 1]. \<Union>dx \<in> set [- t + 1..t - 1].
        if int x + dx \<ge> 0 \<and> int x + dx < int w \<and> int y + dy \<ge> 0 \<and> int y + dy < int h
        then {nat (((int y + dy) * int w + (int x + dx)) * 4),
              nat (((int y + dy) * int w + (int x + dx)) * 4) + 1,
              nat (((int y + dy) * int w + (int x + dx)) * 4) + 2}
        else {})"
    using rng inb mem by (intro UN_I[of dy] UN_I[of dx]) simp_all
  then show "4 * (y' * w + x') + k \<in> paintedBy t w h d0"
    unfolding paintedBy_def using x y b0 by (intro UN_I[of y] UN_I[of x]) simp_all
qed

lemma length_dilate: "length (dilate t w h d) = length d"
  using dilate_painted[of d t w h] by (simp add: paintedFrom_def)

lemma nth_dilate:
  assumes "length d = 4 * (w * h)" and "x < w" and "y < h" and "k < 4"
  shows "dilate t w h d ! (4 * (y * w + x) + k)
         = (if k < 3 \<and> nearBlack t d w h x y then 0 else d ! (4 * (y * w + x) + k))"
proof -
  have "4 * (y * w + x) + k < length d"
    using pixel_number_less[OF assms(2,3)] assms(1,4) by simp
  then have "dilate t w h d ! (4 * (y * w + x) + k)
             = (if 4 * (y * w + x) + k \<in> paintedBy t w h d then 0 else d ! (4 * (y * w + x) + k))"
    using dilate_painted[of d t w h] by (simp add: paintedFrom_def)
  then show ?thesis using mem_paintedBy[OF assms(2,3,4), of t d] by simp
qed

lemma applyLineThickness_eq:
  assumes "length (data c) = 4 * (width c * height c)" and "1 < t"
  shows "applyLineThickness t c = c\<lparr>data := dilate t (width c) (height c) (data c)\<rparr>"
proof -
  have "putImageData (c\<lparr>data := dilate t (width c) (height c) (data c)\<rparr>) c
        = c\<lparr>data := data (c\<lparr>data := dilate t (width c) (height c) (data c)\<rparr>)\<rparr>"
    by (rule putImageData_same) (simp_all add: length_dilate assms(1))
  then show ?thesis
    using assms(2) by (simp add: applyLineThickness_def Let_def getImageData_same[OF assms(1)])
qed

section \<open>Bytes stay bytes\<close>

lemma round_half_even_bounds:
  fixes v :: "'a::floor_ceiling"
  assumes "of_int lo \<le> v" and "v \<le> of_int hi"
  shows "lo \<le> round_half_even v \<and> round_half_even v \<le> hi"
proof -
  have f1: "lo \<le> \<lfloor>v\<rfloor>" using assms(1) by (simp add: le_floor_iff)
  have f2: "\<lfloor>v\<rfloor> \<le> hi" using assms(2) by (simp add: floor_le_iff) 
  have up: "\<lfloor>v\<rfloor> + 1 \<le> hi" if "v \<noteq> of_int \<lfloor>v\<rfloor>"
  proof -
    have le: "of_int \<lfloor>v\<rfloor> \<le> v" by (rule of_int_floor_le)
    have "of_int \<lfloor>v\<rfloor> < v"
      by (rule order.not_eq_order_implies_strict[OF not_sym[OF that] le])
    then have "of_int \<lfloor>v\<rfloor> < (of_int hi :: 'a)" using assms(2) by (rule less_le_trans)
    then have "\<lfloor>v\<rfloor> < hi" by (simp only: of_int_less_iff)
    then show ?thesis by simp
  qed
  show ?thesis
    using f1 f2 up by (auto simp: round_half_even_def Let_def)
qed

lemma toUint8Clamp_le: "toUint8Clamp v \<le> 255"
proof -
  have "round_half_even (max 0 (min 255 v)) \<le> 255"
    using round_half_even_bounds[of 0 "max 0 (min 255 v)" 255] by simp
  then show ?thesis by (simp add: toUint8Clamp_def)
qed

lemma toUint8Clamp_of_nat:
  assumes "n \<le> 255"
  shows "toUint8Clamp (of_nat n :: 'a::floor_ceiling) = n"
proof -
  have "max 0 (min 255 (of_nat n :: 'a)) = of_int (int n)" using assms by (simp add: min_def max_def)
  moreover have "round_half_even (of_int (int n) :: 'a) = int n"
    by (rule round_half_even_near) simp
  ultimately show ?thesis by (simp add: toUint8Clamp_def)
qed

lemma toUint8Clamp_0: "toUint8Clamp (0 :: 'a::floor_ceiling) = 0"
  using toUint8Clamp_of_nat[of 0, where 'a='a] by simp

lemma toUint8Clamp_255: "toUint8Clamp (255 :: 'a::floor_ceiling) = 255"
  using toUint8Clamp_of_nat[of 255, where 'a='a] by simp

lemma bytes_update: "bytes d \<Longrightarrow> v \<le> 255 \<Longrightarrow> bytes (d[i := v])"
  unfolding bytes_def using set_update_subset_insert[of d i v] by auto

lemma bytes_setRGB: "bytes d \<Longrightarrow> v \<le> 255 \<Longrightarrow> bytes (setRGB i v d)"
  by (simp add: setRGB_def bytes_update)

lemma bytes_setRGBA: "bytes d \<Longrightarrow> v \<le> 255 \<Longrightarrow> a \<le> 255 \<Longrightarrow> bytes (setRGBA i v a d)"
  by (simp add: setRGBA_def bytes_update)

lemma bytes_nth: "bytes d \<Longrightarrow> i < length d \<Longrightarrow> d ! i \<le> 255"
  by (simp add: bytes_def)

lemma bytes_replicate: "bytes (replicate n 0)"
  by (simp add: bytes_def)

lemma bytes_fold_inplace:
  assumes "bytes d"
  shows "bytes (fold (\<lambda>i d. setRGB i (toUint8Clamp (f d i)) d) xs d)"
  using assms by (induction xs arbitrary: d) (simp_all add: bytes_setRGB toUint8Clamp_le)

lemma bytes_applyStencilEffect: "bytes d \<Longrightarrow> bytes (applyStencilEffect d s)"
  unfolding applyStencilEffect_def
  using bytes_fold_inplace[of d "\<lambda>d i. stencilFinalValue s (d ! i) (d ! (i + 1)) (d ! (i + 2))"]
  by simp

lemma bytes_bwLoop: "bytes d \<Longrightarrow> bytes (bwLoop d s)"
  unfolding bwLoop_def
  using bytes_fold_inplace[of d "\<lambda>d i. bwFinalValue s (d ! i) (d ! (i + 1)) (d ! (i + 2))"]
  by simp

lemma bytes_thresholdLoop: "bytes d \<Longrightarrow> bytes (thresholdLoop d s)"
  unfolding thresholdLoop_def
  using bytes_fold_inplace[of d "\<lambda>d i. lineFinalValue s (d ! i)"]
  by simp

lemma bytes_fold_writes:
  assumes "bytes g" and "\<And>a. a \<in> set xs \<Longrightarrow> v a \<le> 255 \<and> al a \<le> 255"
  shows "bytes (fold (\<lambda>a g. setRGBA (4 * tgt a) (v a) (al a) g) xs g)"
  using assms by (induction xs arbitrary: g) (simp_all add: bytes_setRGBA)

lemma bytes_grayLoop:
  assumes "length d = 4 * n" and "bytes d"
  shows "bytes (grayLoop d)"
  unfolding grayLoop_fold[OF assms(1)]
proof (rule bytes_fold_writes[OF bytes_replicate])
  fix a assume "a \<in> set [0..<n]"
  then have "4 * a + 3 < length d" using assms(1) by simp
  then show "toUint8Clamp (luminance (d ! (4 * a)) (d ! (4 * a + 1)) (d ! (4 * a + 2))) \<le> 255
             \<and> d ! (4 * a + 3) \<le> 255"
    using bytes_nth[OF assms(2)] by (simp add: toUint8Clamp_le)
qed

lemma nearestSqrtUpto_le: "nearestSqrtUpto k n \<le> k"
  by (induction k) auto

lemma magnitudeByte_le: "magnitudeByte gx gy \<le> 255"
  by (simp add: magnitudeByte_def nearestSqrtUpto_le)

lemma bytes_applySobel:
  assumes "length d = 4 * (w * h)" and "bytes d"
  shows "bytes (applySobelEdgeDetection d w h)"
  unfolding applySobel_fold
proof (rule bytes_fold_writes[OF bytes_replicate])
  fix a assume a: "a \<in> set (List.product [1..<h - 1] [1..<w - 1])"
  then have "snd a < w" "fst a < h" by auto
  then have "fst a * w + snd a < w * h" by (rule pixel_number_less)
  then have "4 * (fst a * w + snd a) + 3 < length d" using assms(1) by simp
  then have "d ! (4 * (fst a * w + snd a) + 3) \<le> 255" by (rule bytes_nth[OF assms(2)])
  then show "(case sobelSums d w (snd a) (fst a) of (gx, gy) \<Rightarrow> magnitudeByte gx gy) \<le> 255
             \<and> d ! (4 * (fst a * w + snd a) + 3) \<le> 255"
    by (simp add: magnitudeByte_le split: prod.splits)
qed

lemma bytes_dilate:
  assumes "bytes d"
  shows "bytes (dilate t w h d)"
proof -
  have p: "paintedFrom d (paintedBy t w h d) (dilate t w h d)" by (rule dilate_painted)
  show ?thesis
    unfolding bytes_def
  proof
    fix b assume "b \<in> set (dilate t w h d)"
    then obtain j where j: "j < length (dilate t w h d)" and b: "b = dilate t w h d ! j"
      by (auto simp: in_set_conv_nth)
    have jl: "j < length d" using j p by (simp add: paintedFrom_def)
    then have "b = (if j \<in> paintedBy t w h d then 0 else d ! j)"
      using p b by (simp add: paintedFrom_def)
    then show "b \<le> 255" using bytes_nth[OF assms jl] by simp
  qed
qed

lemma sketchEdgeData_props:
  assumes "length d = 4 * (w * h)"
  shows "length (sketchEdgeData d w h s) = length d"
    and "bytes d \<Longrightarrow> bytes (sketchEdgeData d w h s)"
proof -
  have lg: "length (grayLoop d) = 4 * (w * h)" using length_grayLoop[OF assms] assms by simp
  show "length (sketchEdgeData d w h s) = length d"
    by (simp add: sketchEdgeData_def length_thresholdLoop length_applySobel lg assms)
  assume "bytes d"
  then have "bytes (grayLoop d)" by (rule bytes_grayLoop[OF assms])
  then have "bytes (applySobelEdgeDetection (grayLoop d) w h)" by (rule bytes_applySobel[OF lg])
  then show "bytes (sketchEdgeData d w h s)"
    unfolding sketchEdgeData_def by (rule bytes_thresholdLoop)
qed

section \<open>The transforms on a canvas of the size of the image\<close>

lemma bytes_concat_map:
  assumes "\<And>p. p < n \<Longrightarrow> bytes (f p)"
  shows "bytes (concat (map f [0..<n]))"
  using assms by (auto simp: bytes_def)

lemma bytes_pixelAt:
  assumes "bytes (data r)" and "4 * (y * width r + x) + 3 < length (data r)"
  shows "bytes (pixelAt r x y)"
proof -
  have "data r ! (4 * (y * width r + x) + k) \<le> 255" if "k < 4" for k
    using bytes_nth[OF assms(1), of "4 * (y * width r + x) + k"] assms(2) that by simp
  then show ?thesis by (auto simp: bytes_def pixelAt_def)
qed

lemma bytes_over:
  assumes "bytes src" and "bytes dst"
  shows "bytes (over blend src dst)"
  using assms by (auto simp: over_def bytes_def split: prod.splits)

lemma length_over:
  assumes "length src = 4" and "length dst = 4"
  shows "length (over blend src dst) = 4"
  using assms by (auto simp: over_def split: prod.splits)

lemma pixel_in_range:
  fixes p w h :: nat
  assumes "p < w * h"
  shows "4 * (p div w * w + p mod w) + 3 < 4 * (w * h)"
  using assms pixel_coords(3)[OF assms] by simp

lemma drawImage_props:
  assumes dims: "width img = width c" "height img = height c"
    and lc: "length (data c) = 4 * (width c * height c)"
    and li: "length (data img) = 4 * (width c * height c)"
  shows "width (drawImage blend img c) = width c"
    and "height (drawImage blend img c) = height c"
    and "length (data (drawImage blend img c)) = 4 * (width c * height c)"
    and "bytes (data img) \<Longrightarrow> bytes (data c) \<Longrightarrow> bytes (data (drawImage blend img c))"
proof -
  show "width (drawImage blend img c) = width c" by (simp add: drawImage_def)
  show "height (drawImage blend img c) = height c" by (simp add: drawImage_def)
  show "length (data (drawImage blend img c)) = 4 * (width c * height c)"
    unfolding drawImage_def
    by (simp add: length_concat_map4 length_over length_pixelAt Let_def)
  assume bi: "bytes (data img)" and bc: "bytes (data c)"
  have "bytes (let x = p mod width c; y = p div width c
               in if x < width img \<and> y < height img
                  then over blend (pixelAt img x y) (pixelAt c x y)
                  else pixelAt c x y)" if p: "p < width c * height c" for p
  proof -
    have "bytes (pixelAt c (p mod width c) (p div width c))"
      using pixel_in_range[OF p] lc by (intro bytes_pixelAt[OF bc]) simp
    moreover have "bytes (pixelAt img (p mod width c) (p div width c))"
      using pixel_in_range[OF p] li dims by (intro bytes_pixelAt[OF bi]) simp
    ultimately show ?thesis by (simp add: Let_def bytes_over)
  qed
  then show "bytes (data (drawImage blend img c))"
    unfolding drawImage_def by (simp add: bytes_concat_map)
qed

lemma raster_eqI:
  fixes a b :: raster
  assumes "width a = width b" and "height a = height b" and "data a = data b"
  shows "a = b"
  using assms by (cases a, cases b) simp

text \<open>The three transforms on a canvas of the size of the image.\<close>

lemma createSolidStencil_eq:
  assumes dims: "width c = width img" "height c = height img"
    and lc: "length (data c) = 4 * (width img * height img)"
    and li: "length (data img) = 4 * (width img * height img)"
  shows "createSolidStencil blend img s c =
         (let d1 = data (drawImage blend img c);
              d = applyStencilEffect d1 s;
              out = \<lparr>width = width img, height = height img,
                     data = (if 1 < lineThickness s
                             then dilate (lineThickness s) (width img) (height img) d else d)\<rparr>
          in (out, out))"
proof -
  define c1 where "c1 = drawImage blend img c"
  have c1: "width c1 = width img" "height c1 = height img"
    "length (data c1) = 4 * (width img * height img)"
    unfolding c1_def using drawImage_props(1,2,3)[of img c blend] dims lc li by simp_all
  have g: "getImageData c1 (width img) (height img) = c1"
    using getImageData_same[of c1] c1 by simp
  define d where "d = applyStencilEffect (data c1) s"
  have ld: "length d = 4 * (width img * height img)"
    by (simp add: d_def length_applyStencilEffect c1)
  define c2 where "c2 = putImageData (c1\<lparr>data := d\<rparr>) c1"
  have c2: "c2 = c1\<lparr>data := d\<rparr>"
    unfolding c2_def using putImageData_same[of "c1\<lparr>data := d\<rparr>" c1] ld c1 by simp
  have lc2: "length (data c2) = 4 * (width c2 * height c2)" by (simp add: c2 ld c1)
  have "createSolidStencil blend img s c
        = (let c3 = (if lineThickness s > 1 then applyLineThickness (lineThickness s) c2 else c2)
           in (c3, c3))"
    by (simp add: createSolidStencil_def Let_def g c1_def[symmetric] d_def[symmetric]
        c2_def[symmetric] toDataURL_def)
  also have "(if lineThickness s > 1 then applyLineThickness (lineThickness s) c2 else c2)
        = \<lparr>width = width img, height = height img,
           data = (if 1 < lineThickness s
                   then dilate (lineThickness s) (width img) (height img) d else d)\<rparr>"
    using applyLineThickness_eq[OF lc2, of "lineThickness s"]
    by (intro raster_eqI) (simp_all add: c2 c1)
  finally show ?thesis by (simp add: Let_def c1_def d_def)
qed

lemma createBlackWhiteDesign_eq:
  assumes dims: "width c = width img" "height c = height img"
    and lc: "length (data c) = 4 * (width img * height img)"
    and li: "length (data img) = 4 * (width img * height img)"
  shows "createBlackWhiteDesign blend img s c =
         (let d1 = data (drawImage blend img c);
              out = \<lparr>width = width img, height = height img, data = bwLoop d1 s\<rparr>
          in (out, out))"
proof -
  define c1 where "c1 = drawImage blend img c"
  have c1: "width c1 = width img" "height c1 = height img"
    "length (data c1) = 4 * (width img * height img)"
    unfolding c1_def using drawImage_props(1,2,3)[of img c blend] dims lc li by simp_all
  have g: "getImageData c1 (width img) (height img) = c1"
    using getImageData_same[of c1] c1 by simp
  define d where "d = bwLoop (data c1) s"
  have ld: "length d = 4 * (width img * height img)"
    by (simp add: d_def length_bwLoop c1)
  define c2 where "c2 = putImageData (c1\<lparr>data := d\<rparr>) c1"
  have c2: "c2 = c1\<lparr>data := d\<rparr>"
    unfolding c2_def using putImageData_same[of "c1\<lparr>data := d\<rparr>" c1] ld c1 by simp
  have "createBlackWhiteDesign blend img s c = (c2, c2)"
    by (simp add: createBlackWhiteDesign_def Let_def g c1_def[symmetric] d_def[symmetric]
        c2_def[symmetric] toDataURL_def)
  also have "c2 = \<lparr>width = width img, height = height img, data = d\<rparr>"
    by (intro raster_eqI) (simp_all add: c2 c1)
  finally show ?thesis by (simp add: Let_def c1_def d_def)
qed

lemma createLineSketch_eq:
  assumes dims: "width c = width img" "height c = height img"
    and lc: "length (data c) = 4 * (width img * height img)"
    and li: "length (data img) = 4 * (width img * height img)"
  shows "createLineSketch blend img s c =
         (let d1 = data (drawImage blend img c);
              e = sketchEdgeData d1 (width img) (height img) s;
              out = \<lparr>width = width img, height = height img,
                     data = (if 1 < lineThickness s
                             then dilate (lineThickness s) (width img) (height img) e else e)\<rparr>
          in (out, out))"
proof -
  define c1 where "c1 = drawImage blend img c"
  have c1: "width c1 = width img" "height c1 = height img"
    "length (data c1) = 4 * (width img * height img)"
    unfolding c1_def using drawImage_props(1,2,3)[of img c blend] dims lc li by simp_all
  have g: "getImageData c1 (width img) (height img) = c1"
    using getImageData_same[of c1] c1 by simp
  define e where "e = sketchEdgeData (data c1) (width img) (height img) s"
  have le: "length e = 4 * (width img * height img)"
    unfolding e_def using sketchEdgeData_props(1)[OF c1(3)] c1(3) by simp
  define c2 where
    "c2 = putImageData \<lparr>width = width img, height = height img, data = e\<rparr> c1"
  have c2: "c2 = c1\<lparr>data := e\<rparr>"
    unfolding c2_def
    using putImageData_same[of "\<lparr>width = width img, height = height img, data = e\<rparr>" c1] le c1
    by simp
  have lc2: "length (data c2) = 4 * (width c2 * height c2)" by (simp add: c2 le c1)
  have "createLineSketch blend img s c
        = (let c3 = (if lineThickness s > 1 then applyLineThickness (lineThickness s) c2 else c2)
           in (c3, c3))"
    by (simp add: createLineSketch_def Let_def g c1_def[symmetric] e_def[symmetric]
        c2_def[symmetric] toDataURL_def)
  also have "(if lineThickness s > 1 then applyLineThickness (lineThickness s) c2 else c2)
        = \<lparr>width = width img, height = height img,
           data = (if 1 < lineThickness s
                   then dilate (lineThickness s) (width img) (height img) e else e)\<rparr>"
    using applyLineThickness_eq[OF lc2, of "lineThickness s"]
    by (intro raster_eqI) (simp_all add: c2 c1)
  finally show ?thesis by (simp add: Let_def c1_def e_def)
qed

lemma blank_props:
  "width (blank w h) = w" "height (blank w h) = h" "length (data (blank w h)) = 4 * (w * h)"
  by (simp_all add: blank_def)

text \<open>
  \<open>processImage\<close> in each mode, in terms of the buffer that \<open>getImageData\<close> returns after
  the image was drawn on the cleared canvas.
\<close>

lemma processImage_solid_drawn:
  assumes li: "length (data img) = 4 * (width img * height img)"
    and m: "mode s = ''solid-stencil''"
  shows "processImage blend (Some img) s =
         (let d = applyStencilEffect
                    (data (drawImage blend img (blank (width img) (height img)))) s
          in Inr (emptyResult\<lparr>solidStencil := Some \<lparr>width = width img, height = height img,
               data = (if 1 < lineThickness s
                       then dilate (lineThickness s) (width img) (height img) d
                       else d)\<rparr>\<rparr>))"
  using m createSolidStencil_eq[OF blank_props li, of blend s]
  by (simp add: processImage_def Let_def)

lemma processImage_line_drawn:
  assumes li: "length (data img) = 4 * (width img * height img)"
    and m: "mode s = ''line-sketch''"
  shows "processImage blend (Some img) s =
         (let e = sketchEdgeData
                    (data (drawImage blend img (blank (width img) (height img))))
                    (width img) (height img) s
          in Inr (emptyResult\<lparr>lineSketch := Some \<lparr>width = width img, height = height img,
               data = (if 1 < lineThickness s
                       then dilate (lineThickness s) (width img) (height img) e
                       else e)\<rparr>\<rparr>))"
  using m createLineSketch_eq[OF blank_props li, of blend s]
  by (simp add: processImage_def Let_def)

text \<open>
  In \<open>black-white\<close> mode the line sketch starts from the canvas the black and white
  picture was left on, with the image drawn over it.
\<close>

lemma processImage_bw_drawn:
  assumes li: "length (data img) = 4 * (width img * height img)"
    and m: "mode s = ''black-white''"
  shows "processImage blend (Some img) s =
         (let bw = \<lparr>width = width img, height = height img,
                    data = bwLoop
                      (data (drawImage blend img (blank (width img) (height img)))) s\<rparr>;
              e = sketchEdgeData (data (drawImage blend img bw)) (width img) (height img) s
          in Inr (emptyResult\<lparr>blackWhite := Some bw,
               lineSketch := Some \<lparr>width = width img, height = height img,
                 data = (if 1 < lineThickness s
                         then dilate (lineThickness s) (width img) (height img) e
                         else e)\<rparr>\<rparr>))"
proof -
  define d1 where "d1 = data (drawImage blend img (blank (width img) (height img)))"
  define bw where "bw = \<lparr>width = width img, height = height img, data = bwLoop d1 s\<rparr>"
  have l1: "length d1 = 4 * (width img * height img)"
    unfolding d1_def
    using drawImage_props(3)[of img "blank (width img) (height img)" blend] li
    by (simp add: blank_props)
  have b1: "createBlackWhiteDesign blend img s (blank (width img) (height img)) = (bw, bw)"
    using createBlackWhiteDesign_eq[OF blank_props li, of blend s]
    by (simp add: Let_def bw_def d1_def)
  have bwp: "width bw = width img" "height bw = height img"
    "length (data bw) = 4 * (width img * height img)"
    by (simp_all add: bw_def length_bwLoop l1)
  note b2 = createLineSketch_eq[OF bwp li, of blend s]
  show ?thesis
    using m
    by (simp add: processImage_def Let_def b1 b2 bw_def[symmetric] d1_def[symmetric])
qed

text \<open>For an opaque image that buffer is the buffer of the image.\<close>

lemma processImage_solid:
  assumes li: "length (data img) = 4 * (width img * height img)"
    and m: "mode s = ''solid-stencil''" and op: "opaque img"
  shows "processImage blend (Some img) s =
         Inr (emptyResult\<lparr>solidStencil := Some \<lparr>width = width img, height = height img,
            data = (if 1 < lineThickness s
                    then dilate (lineThickness s) (width img) (height img)
                           (applyStencilEffect (data img) s)
                    else applyStencilEffect (data img) s)\<rparr>\<rparr>)"
  unfolding processImage_solid_drawn[OF li m] drawImage_blank[OF li op] Let_def ..

lemma processImage_line:
  assumes li: "length (data img) = 4 * (width img * height img)"
    and m: "mode s = ''line-sketch''" and op: "opaque img"
  shows "processImage blend (Some img) s =
         Inr (emptyResult\<lparr>lineSketch := Some \<lparr>width = width img, height = height img,
            data = (if 1 < lineThickness s
                    then dilate (lineThickness s) (width img) (height img)
                           (sketchEdgeData (data img) (width img) (height img) s)
                    else sketchEdgeData (data img) (width img) (height img) s)\<rparr>\<rparr>)"
  unfolding processImage_line_drawn[OF li m] drawImage_blank[OF li op] Let_def ..

lemma processImage_bw:
  assumes li: "length (data img) = 4 * (width img * height img)"
    and m: "mode s = ''black-white''" and op: "opaque img"
  shows "processImage blend (Some img) s =
         (let bw = \<lparr>width = width img, height = height img, data = bwLoop (data img) s\<rparr>;
              e = sketchEdgeData (data (drawImage blend img bw)) (width img) (height img) s
          in Inr (emptyResult\<lparr>blackWhite := Some bw,
               lineSketch := Some \<lparr>width = width img, height = height img,
                 data = (if 1 < lineThickness s
                         then dilate (lineThickness s) (width img) (height img) e
                         else e)\<rparr>\<rparr>))"
  unfolding processImage_bw_drawn[OF li m] drawImage_blank[OF li op] ..

section \<open>Binary64 values of the examples\<close>

text \<open>
  The roundings that occur when the source evaluates its formulas on the pixels of the
  examples, step by step: each lemma gives the exponent and the significand.
\<close>

lemma fl_weight_1: "fl (299 / 1000) = 5386305154335113 / 18014398509481984"
  using fl_near[of "- 2" "299 / 1000" "5386305154335113"] by (simp add: power_int_minus)

lemma fl_weight_2: "fl (587 / 1000) = 2643612981266481 / 4503599627370496"
  using fl_near[of "- 1" "587 / 1000" "5287225962532962"] by (simp add: power_int_minus)

lemma fl_weight_3: "fl (114 / 1000) = 8214565720323785 / 72057594037927936"
  using fl_near[of "- 4" "114 / 1000" "8214565720323785"] by (simp add: power_int_minus)

lemma lum_0_66_147_1: "fl (of_nat (0::nat) * (5386305154335113 / 18014398509481984)) = 0"
  by (simp add: fl_def)

lemma lum_0_66_147_2: "fl (of_nat (66::nat) * (2643612981266481 / 4503599627370496)) = 5452451773862117 / 140737488355328"
  using fl_near[of "5" "of_nat (66::nat) * (2643612981266481 / 4503599627370496)" "5452451773862117"] by (simp add: power_int_minus)

lemma lum_0_66_147_3: "fl (of_nat (147::nat) * (8214565720323785 / 72057594037927936)) = 4716957659717173 / 281474976710656"
  using fl_near[of "4" "of_nat (147::nat) * (8214565720323785 / 72057594037927936)" "4716957659717173"] by (simp add: power_int_minus)

lemma lum_0_66_147_4: "fl ((0) + (5452451773862117 / 140737488355328)) = 5452451773862117 / 140737488355328"
  using fl_near[of "5" "(0) + (5452451773862117 / 140737488355328)" "5452451773862117"] by (simp add: power_int_minus)

lemma lum_0_66_147_5: "fl ((5452451773862117 / 140737488355328) + (4716957659717173 / 281474976710656)) = 111 / 2"
  using fl_tie[of "5" "(5452451773862117 / 140737488355328) + (4716957659717173 / 281474976710656)" "7810930603720703"] by (simp add: power_int_minus)

lemma luminance_0_66_147: "luminance 0 66 147 = 111 / 2"
  unfolding luminance_def fl_weight_1 fl_weight_2 fl_weight_3 lum_0_66_147_1 lum_0_66_147_2 lum_0_66_147_3 lum_0_66_147_4 lum_0_66_147_5
  by (rule refl)

lemma con_teal_1: "fl ((111 / 2) / 255) = 1960390426031863 / 9007199254740992"
  using fl_near[of "- 3" "(111 / 2) / 255" "7841561704127452"] by (simp add: power_int_minus)

lemma con_teal_2: "fl ((1960390426031863 / 9007199254740992) - 1 / 2) = - (2543209201338633 / 9007199254740992)"
  using fl_near[of "- 2" "(1960390426031863 / 9007199254740992) - 1 / 2" "- 5086418402677266"] by (simp add: power_int_minus)

lemma con_teal_3: "fl ((- (2543209201338633 / 9007199254740992)) * (3 / 2)) = - (7629627604015899 / 18014398509481984)"
  using fl_near[of "- 2" "(- (2543209201338633 / 9007199254740992)) * (3 / 2)" "- 7629627604015899"] by (simp add: power_int_minus)

lemma con_teal_4: "fl ((- (7629627604015899 / 18014398509481984)) + 1 / 2) = 1377571650725093 / 18014398509481984"
  using fl_near[of "- 4" "(- (7629627604015899 / 18014398509481984)) + 1 / 2" "5510286602900372"] by (simp add: power_int_minus)

lemma con_teal_5: "fl ((1377571650725093 / 18014398509481984) * 255) = 39 / 2"
  using fl_near[of "4" "(1377571650725093 / 18014398509481984) * 255" "5488762045857792"] by (simp add: power_int_minus)

lemma contrastAdjust_teal: "contrastAdjust (3 / 2) (111 / 2) = 39 / 2"
  unfolding contrastAdjust_def con_teal_1 con_teal_2 con_teal_3 con_teal_4 con_teal_5
  by (rule refl)

lemma fl_inverted_teal_1: "fl (471 / 2) = 471 / 2"
  using fl_near[of "7" "471 / 2" "8285919626919936"] by (simp add: power_int_minus)

lemma lum_255_255_255_1: "fl (of_nat (255::nat) * (5386305154335113 / 18014398509481984)) = 5365264899825991 / 70368744177664"
  using fl_near[of "6" "of_nat (255::nat) * (5386305154335113 / 18014398509481984)" "5365264899825991"] by (simp add: power_int_minus)

lemma lum_255_255_255_2: "fl (of_nat (255::nat) * (2643612981266481 / 4503599627370496)) = 2633286368058409 / 17592186044416"
  using fl_near[of "7" "of_nat (255::nat) * (2643612981266481 / 4503599627370496)" "5266572736116818"] by (simp add: power_int_minus)

lemma lum_255_255_255_3: "fl (of_nat (255::nat) * (8214565720323785 / 72057594037927936)) = 4091238786489385 / 140737488355328"
  using fl_near[of "4" "of_nat (255::nat) * (8214565720323785 / 72057594037927936)" "8182477572978770"] by (simp add: power_int_minus)

lemma lum_255_255_255_4: "fl ((5365264899825991 / 70368744177664) + (2633286368058409 / 17592186044416)) = 3974602593014907 / 17592186044416"
  using fl_tie[of "7" "(5365264899825991 / 70368744177664) + (2633286368058409 / 17592186044416)" "7949205186029813"] by (simp add: power_int_minus)

lemma lum_255_255_255_5: "fl ((3974602593014907 / 17592186044416) + (4091238786489385 / 140737488355328)) = 255"
  using fl_near[of "7" "(3974602593014907 / 17592186044416) + (4091238786489385 / 140737488355328)" "8972014882652160"] by (simp add: power_int_minus)

lemma luminance_255_255_255: "luminance 255 255 255 = 255"
  unfolding luminance_def fl_weight_1 fl_weight_2 fl_weight_3 lum_255_255_255_1 lum_255_255_255_2 lum_255_255_255_3 lum_255_255_255_4 lum_255_255_255_5
  by (rule refl)

lemma con_white_1: "fl ((255) / 255) = 1"
  using fl_near[of "0" "(255) / 255" "4503599627370496"] by (simp add: power_int_minus)

lemma con_white_2: "fl ((1) - 1 / 2) = 1 / 2"
  using fl_near[of "- 1" "(1) - 1 / 2" "4503599627370496"] by (simp add: power_int_minus)

lemma con_white_3: "fl ((1 / 2) * (3)) = 3 / 2"
  using fl_near[of "0" "(1 / 2) * (3)" "6755399441055744"] by (simp add: power_int_minus)

lemma con_white_4: "fl ((3 / 2) + 1 / 2) = 2"
  using fl_near[of "1" "(3 / 2) + 1 / 2" "4503599627370496"] by (simp add: power_int_minus)

lemma con_white_5: "fl ((2) * 255) = 510"
  using fl_near[of "8" "(2) * 255" "8972014882652160"] by (simp add: power_int_minus)

lemma contrastAdjust_white: "contrastAdjust (3) (255) = 510"
  unfolding contrastAdjust_def con_white_1 con_white_2 con_white_3 con_white_4 con_white_5
  by (rule refl)

lemma con_white_default_1: "fl ((255) / 255) = 1"
  using fl_near[of "0" "(255) / 255" "4503599627370496"] by (simp add: power_int_minus)

lemma con_white_default_2: "fl ((1) - 1 / 2) = 1 / 2"
  using fl_near[of "- 1" "(1) - 1 / 2" "4503599627370496"] by (simp add: power_int_minus)

lemma con_white_default_3: "fl ((1 / 2) * (3 / 2)) = 3 / 4"
  using fl_near[of "- 1" "(1 / 2) * (3 / 2)" "6755399441055744"] by (simp add: power_int_minus)

lemma con_white_default_4: "fl ((3 / 4) + 1 / 2) = 5 / 4"
  using fl_near[of "0" "(3 / 4) + 1 / 2" "5629499534213120"] by (simp add: power_int_minus)

lemma con_white_default_5: "fl ((5 / 4) * 255) = 1275 / 4"
  using fl_near[of "8" "(5 / 4) * 255" "5607509301657600"] by (simp add: power_int_minus)

lemma contrastAdjust_white_default: "contrastAdjust (3 / 2) (255) = 1275 / 4"
  unfolding contrastAdjust_def con_white_default_1 con_white_default_2 con_white_default_3 con_white_default_4 con_white_default_5
  by (rule refl)

lemma lum_1_1_1_1: "fl (of_nat (1::nat) * (5386305154335113 / 18014398509481984)) = 5386305154335113 / 18014398509481984"
  using fl_near[of "- 2" "of_nat (1::nat) * (5386305154335113 / 18014398509481984)" "5386305154335113"] by (simp add: power_int_minus)

lemma lum_1_1_1_2: "fl (of_nat (1::nat) * (2643612981266481 / 4503599627370496)) = 2643612981266481 / 4503599627370496"
  using fl_near[of "- 1" "of_nat (1::nat) * (2643612981266481 / 4503599627370496)" "5287225962532962"] by (simp add: power_int_minus)

lemma lum_1_1_1_3: "fl (of_nat (1::nat) * (8214565720323785 / 72057594037927936)) = 8214565720323785 / 72057594037927936"
  using fl_near[of "- 4" "of_nat (1::nat) * (8214565720323785 / 72057594037927936)" "8214565720323785"] by (simp add: power_int_minus)

lemma lum_1_1_1_4: "fl ((5386305154335113 / 18014398509481984) + (2643612981266481 / 4503599627370496)) = 3990189269850259 / 4503599627370496"
  using fl_tie[of "- 1" "(5386305154335113 / 18014398509481984) + (2643612981266481 / 4503599627370496)" "7980378539700518"] by (simp add: power_int_minus)

lemma lum_1_1_1_5: "fl ((3990189269850259 / 4503599627370496) + (8214565720323785 / 72057594037927936)) = 9007199254740991 / 9007199254740992"
  using fl_near[of "- 1" "(3990189269850259 / 4503599627370496) + (8214565720323785 / 72057594037927936)" "9007199254740991"] by (simp add: power_int_minus)

lemma luminance_1_1_1: "luminance 1 1 1 = 9007199254740991 / 9007199254740992"
  unfolding luminance_def fl_weight_1 fl_weight_2 fl_weight_3 lum_1_1_1_1 lum_1_1_1_2 lum_1_1_1_3 lum_1_1_1_4 lum_1_1_1_5
  by (rule refl)

lemma lum_0_0_0_1: "fl (of_nat (0::nat) * (5386305154335113 / 18014398509481984)) = 0"
  by (simp add: fl_def)

lemma lum_0_0_0_2: "fl (of_nat (0::nat) * (2643612981266481 / 4503599627370496)) = 0"
  by (simp add: fl_def)

lemma lum_0_0_0_3: "fl (of_nat (0::nat) * (8214565720323785 / 72057594037927936)) = 0"
  by (simp add: fl_def)

lemma lum_0_0_0_4: "fl ((0) + (0)) = 0"
  by (simp add: fl_def)

lemma luminance_0_0_0: "luminance 0 0 0 = 0"
  unfolding luminance_def fl_weight_1 fl_weight_2 fl_weight_3 lum_0_0_0_1 lum_0_0_0_2 lum_0_0_0_3 lum_0_0_0_4
  by (rule refl)

lemma lum_3_3_3_1: "fl (of_nat (3::nat) * (5386305154335113 / 18014398509481984)) = 4039728865751335 / 4503599627370496"
  using fl_tie[of "- 1" "of_nat (3::nat) * (5386305154335113 / 18014398509481984)" "8079457731502669"] by (simp add: power_int_minus)

lemma lum_3_3_3_2: "fl (of_nat (3::nat) * (2643612981266481 / 4503599627370496)) = 7930838943799443 / 4503599627370496"
  using fl_near[of "0" "of_nat (3::nat) * (2643612981266481 / 4503599627370496)" "7930838943799443"] by (simp add: power_int_minus)

lemma lum_3_3_3_3: "fl (of_nat (3::nat) * (8214565720323785 / 72057594037927936)) = 6160924290242839 / 18014398509481984"
  using fl_near[of "- 2" "of_nat (3::nat) * (8214565720323785 / 72057594037927936)" "6160924290242839"] by (simp add: power_int_minus)

lemma lum_3_3_3_4: "fl ((4039728865751335 / 4503599627370496) + (7930838943799443 / 4503599627370496)) = 5985283904775389 / 2251799813685248"
  using fl_near[of "1" "(4039728865751335 / 4503599627370496) + (7930838943799443 / 4503599627370496)" "5985283904775389"] by (simp add: power_int_minus)

lemma lum_3_3_3_5: "fl ((5985283904775389 / 2251799813685248) + (6160924290242839 / 18014398509481984)) = 3"
  using fl_near[of "1" "(5985283904775389 / 2251799813685248) + (6160924290242839 / 18014398509481984)" "6755399441055744"] by (simp add: power_int_minus)

lemma luminance_3_3_3: "luminance 3 3 3 = 3"
  unfolding luminance_def fl_weight_1 fl_weight_2 fl_weight_3 lum_3_3_3_1 lum_3_3_3_2 lum_3_3_3_3 lum_3_3_3_4 lum_3_3_3_5
  by (rule refl)

lemma con_gray3_1: "fl ((3) / 255) = 847736400446211 / 72057594037927936"
  using fl_near[of "- 7" "(3) / 255" "6781891203569688"] by (simp add: power_int_minus)

lemma con_gray3_2: "fl ((847736400446211 / 72057594037927936) - 1 / 2) = - (8795265154629439 / 18014398509481984)"
  using fl_near[of "- 2" "(847736400446211 / 72057594037927936) - 1 / 2" "- 8795265154629439"] by (simp add: power_int_minus)

lemma con_gray3_3: "fl ((- (8795265154629439 / 18014398509481984)) * (1)) = - (8795265154629439 / 18014398509481984)"
  using fl_near[of "- 2" "(- (8795265154629439 / 18014398509481984)) * (1)" "- 8795265154629439"] by (simp add: power_int_minus)

lemma con_gray3_4: "fl ((- (8795265154629439 / 18014398509481984)) + 1 / 2) = 211934100111553 / 18014398509481984"
  using fl_near[of "- 7" "(- (8795265154629439 / 18014398509481984)) + 1 / 2" "6781891203569696"] by (simp add: power_int_minus)

lemma con_gray3_5: "fl ((211934100111553 / 18014398509481984) * 255) = 844424930131969 / 281474976710656"
  using fl_near[of "1" "(211934100111553 / 18014398509481984) * 255" "6755399441055752"] by (simp add: power_int_minus)

lemma contrastAdjust_gray3: "contrastAdjust (1) (3) = 844424930131969 / 281474976710656"
  unfolding contrastAdjust_def con_gray3_1 con_gray3_2 con_gray3_3 con_gray3_4 con_gray3_5
  by (rule refl)

lemma lum_0_80_110_1: "fl (of_nat (0::nat) * (5386305154335113 / 18014398509481984)) = 0"
  by (simp add: fl_def)

lemma lum_0_80_110_2: "fl (of_nat (80::nat) * (2643612981266481 / 4503599627370496)) = 3304516226583101 / 70368744177664"
  using fl_tie[of "5" "of_nat (80::nat) * (2643612981266481 / 4503599627370496)" "6609032453166202"] by (simp add: power_int_minus)

lemma lum_0_80_110_3: "fl (of_nat (110::nat) * (8214565720323785 / 72057594037927936)) = 7059392415903253 / 562949953421312"
  using fl_near[of "3" "of_nat (110::nat) * (8214565720323785 / 72057594037927936)" "7059392415903253"] by (simp add: power_int_minus)

lemma lum_0_80_110_4: "fl ((0) + (3304516226583101 / 70368744177664)) = 3304516226583101 / 70368744177664"
  using fl_near[of "5" "(0) + (3304516226583101 / 70368744177664)" "6609032453166202"] by (simp add: power_int_minus)

lemma lum_0_80_110_5: "fl ((3304516226583101 / 70368744177664) + (7059392415903253 / 562949953421312)) = 8373880557142015 / 140737488355328"
  using fl_near[of "5" "(3304516226583101 / 70368744177664) + (7059392415903253 / 562949953421312)" "8373880557142015"] by (simp add: power_int_minus)

lemma luminance_0_80_110: "luminance 0 80 110 = 8373880557142015 / 140737488355328"
  unfolding luminance_def fl_weight_1 fl_weight_2 fl_weight_3 lum_0_80_110_1 lum_0_80_110_2 lum_0_80_110_3 lum_0_80_110_4 lum_0_80_110_5
  by (rule refl)

lemma con_blue_1: "fl ((8373880557142015 / 140737488355328) / 255) = 8406719304424925 / 36028797018963968"
  using fl_near[of "- 3" "(8373880557142015 / 140737488355328) / 255" "8406719304424925"] by (simp add: power_int_minus)

lemma con_blue_2: "fl ((8406719304424925 / 36028797018963968) - 1 / 2) = - (2401919801264265 / 9007199254740992)"
  using fl_tie[of "- 2" "(8406719304424925 / 36028797018963968) - 1 / 2" "- 4803839602528530"] by (simp add: power_int_minus)

lemma con_blue_3: "fl ((- (2401919801264265 / 9007199254740992)) * (1)) = - (2401919801264265 / 9007199254740992)"
  using fl_near[of "- 2" "(- (2401919801264265 / 9007199254740992)) * (1)" "- 4803839602528530"] by (simp add: power_int_minus)

lemma con_blue_4: "fl ((- (2401919801264265 / 9007199254740992)) + 1 / 2) = 2101679826106231 / 9007199254740992"
  using fl_near[of "- 3" "(- (2401919801264265 / 9007199254740992)) + 1 / 2" "8406719304424924"] by (simp add: power_int_minus)

lemma con_blue_5: "fl ((2101679826106231 / 9007199254740992) * 255) = 4186940278571007 / 70368744177664"
  using fl_near[of "5" "(2101679826106231 / 9007199254740992) * 255" "8373880557142014"] by (simp add: power_int_minus)

lemma contrastAdjust_blue: "contrastAdjust (1) (8373880557142015 / 140737488355328) = 4186940278571007 / 70368744177664"
  unfolding contrastAdjust_def con_blue_1 con_blue_2 con_blue_3 con_blue_4 con_blue_5
  by (rule refl)

lemma lum_200_100_50_1: "fl (of_nat (200::nat) * (5386305154335113 / 18014398509481984)) = 4208050901824307 / 70368744177664"
  using fl_near[of "5" "of_nat (200::nat) * (5386305154335113 / 18014398509481984)" "8416101803648614"] by (simp add: power_int_minus)

lemma lum_200_100_50_2: "fl (of_nat (100::nat) * (2643612981266481 / 4503599627370496)) = 8261290566457753 / 140737488355328"
  using fl_near[of "5" "of_nat (100::nat) * (2643612981266481 / 4503599627370496)" "8261290566457753"] by (simp add: power_int_minus)

lemma lum_200_100_50_3: "fl (of_nat (50::nat) * (8214565720323785 / 72057594037927936)) = 6417629469002957 / 1125899906842624"
  using fl_near[of "2" "of_nat (50::nat) * (8214565720323785 / 72057594037927936)" "6417629469002957"] by (simp add: power_int_minus)

lemma lum_200_100_50_4: "fl ((4208050901824307 / 70368744177664) + (8261290566457753 / 140737488355328)) = 237 / 2"
  using fl_tie[of "6" "(4208050901824307 / 70368744177664) + (8261290566457753 / 140737488355328)" "8338696185053183"] by (simp add: power_int_minus)

lemma lum_200_100_50_5: "fl ((237 / 2) + (6417629469002957 / 1125899906842624)) = 8739798026865869 / 70368744177664"
  using fl_near[of "6" "(237 / 2) + (6417629469002957 / 1125899906842624)" "8739798026865869"] by (simp add: power_int_minus)

lemma luminance_200_100_50: "luminance 200 100 50 = 8739798026865869 / 70368744177664"
  unfolding luminance_def fl_weight_1 fl_weight_2 fl_weight_3 lum_200_100_50_1 lum_200_100_50_2 lum_200_100_50_3 lum_200_100_50_4 lum_200_100_50_5
  by (rule refl)

lemma con_rust_1: "fl ((8739798026865869 / 70368744177664) / 255) = 2193517936154571 / 4503599627370496"
  using fl_near[of "- 2" "(8739798026865869 / 70368744177664) / 255" "8774071744618284"] by (simp add: power_int_minus)

lemma con_rust_2: "fl ((2193517936154571 / 4503599627370496) - 1 / 2) = - (58281877530677 / 4503599627370496)"
  using fl_near[of "- 7" "(2193517936154571 / 4503599627370496) - 1 / 2" "- 7460080323926656"] by (simp add: power_int_minus)

lemma con_rust_3: "fl ((- (58281877530677 / 4503599627370496)) * (3 / 2)) = - (174845632592031 / 9007199254740992)"
  using fl_near[of "- 6" "(- (58281877530677 / 4503599627370496)) * (3 / 2)" "- 5595060242944992"] by (simp add: power_int_minus)

lemma con_rust_4: "fl ((- (174845632592031 / 9007199254740992)) + 1 / 2) = 4328753994778465 / 9007199254740992"
  using fl_near[of "- 2" "(- (174845632592031 / 9007199254740992)) + 1 / 2" "8657507989556930"] by (simp add: power_int_minus)

lemma con_rust_5: "fl ((4328753994778465 / 9007199254740992) * 255) = 8623689598972723 / 70368744177664"
  using fl_near[of "6" "(4328753994778465 / 9007199254740992) * 255" "8623689598972723"] by (simp add: power_int_minus)

lemma contrastAdjust_rust: "contrastAdjust (3 / 2) (8739798026865869 / 70368744177664) = 8623689598972723 / 70368744177664"
  unfolding contrastAdjust_def con_rust_1 con_rust_2 con_rust_3 con_rust_4 con_rust_5
  by (rule refl)

lemma fl_inverted_rust_1: "fl (9320340166331597 / 70368744177664) = 2330085041582899 / 17592186044416"
  using fl_tie[of "7" "9320340166331597 / 70368744177664" "4660170083165798"] by (simp add: power_int_minus)

lemma con_black_1: "fl ((0) / 255) = 0"
  by (simp add: fl_def)

lemma con_black_2: "fl ((0) - 1 / 2) = - (1 / 2)"
  using fl_near[of "- 1" "(0) - 1 / 2" "- 4503599627370496"] by (simp add: power_int_minus)

lemma con_black_3: "fl ((- (1 / 2)) * (3 / 2)) = - (3 / 4)"
  using fl_near[of "- 1" "(- (1 / 2)) * (3 / 2)" "- 6755399441055744"] by (simp add: power_int_minus)

lemma con_black_4: "fl ((- (3 / 4)) + 1 / 2) = - (1 / 4)"
  using fl_near[of "- 2" "(- (3 / 4)) + 1 / 2" "- 4503599627370496"] by (simp add: power_int_minus)

lemma con_black_5: "fl ((- (1 / 4)) * 255) = - (255 / 4)"
  using fl_near[of "5" "(- (1 / 4)) * 255" "- 8972014882652160"] by (simp add: power_int_minus)

lemma contrastAdjust_black: "contrastAdjust (3 / 2) (0) = - (255 / 4)"
  unfolding contrastAdjust_def con_black_1 con_black_2 con_black_3 con_black_4 con_black_5
  by (rule refl)

lemma con_dot_1: "fl ((9007199254740991 / 9007199254740992) / 255) = 282578800148737 / 72057594037927936"
  using fl_near[of "- 8" "(9007199254740991 / 9007199254740992) / 255" "4521260802379792"] by (simp add: power_int_minus)

lemma con_dot_2: "fl ((282578800148737 / 72057594037927936) - 1 / 2) = - (139633664917247 / 281474976710656)"
  using fl_near[of "- 2" "(282578800148737 / 72057594037927936) - 1 / 2" "- 8936554554703808"] by (simp add: power_int_minus)

lemma con_dot_3: "fl ((- (139633664917247 / 281474976710656)) * (3 / 2)) = - (418900994751741 / 562949953421312)"
  using fl_near[of "- 1" "(- (139633664917247 / 281474976710656)) * (3 / 2)" "- 6702415916027856"] by (simp add: power_int_minus)

lemma con_dot_4: "fl ((- (418900994751741 / 562949953421312)) + 1 / 2) = - (137426018041085 / 562949953421312)"
  using fl_near[of "- 3" "(- (418900994751741 / 562949953421312)) + 1 / 2" "- 8795265154629440"] by (simp add: power_int_minus)

lemma con_dot_5: "fl ((- (137426018041085 / 562949953421312)) * 255) = - (8760908650119169 / 140737488355328)"
  using fl_near[of "5" "(- (137426018041085 / 562949953421312)) * 255" "- 8760908650119169"] by (simp add: power_int_minus)

lemma contrastAdjust_dot: "contrastAdjust (3 / 2) (9007199254740991 / 9007199254740992) = - (8760908650119169 / 140737488355328)"
  unfolding contrastAdjust_def con_dot_1 con_dot_2 con_dot_3 con_dot_4 con_dot_5
  by (rule refl)

section \<open>Rounding and inversion\<close>

lemma round_half_even_close:
  fixes v :: "'a::floor_ceiling"
  assumes "v \<noteq> of_int \<lfloor>v\<rfloor> + 1/2"
  shows "\<bar>v - of_int (round_half_even v)\<bar> < 1/2"
proof (cases "v < of_int \<lfloor>v\<rfloor> + 1/2")
  case True
  have "of_int \<lfloor>v\<rfloor> \<le> v" by (rule of_int_floor_le)
  then show ?thesis using True by (simp add: round_half_even_def abs_less_iff)
next
  case False
  then have gt: "v > of_int \<lfloor>v\<rfloor> + 1/2" using assms by simp
  have "v < of_int \<lfloor>v\<rfloor> + 1" using floor_correct[of v] by simp
  then show ?thesis using gt False by (simp add: round_half_even_def abs_less_iff)
qed

lemma toUint8Clamp_stencil:
  "toUint8Clamp (stencilFinalValue s r g b)
   = (if contrastAdjust (contrast s) (luminance r g b) > of_int (threshold s)
      then (if invert s then 0 else 255)
      else (if invert s then 255 else 0))"
  by (simp add: stencilFinalValue_def Let_def toUint8Clamp_0 toUint8Clamp_255)

lemma clamp_threshold:
  fixes v :: rat
  assumes "0 \<le> t" and "t < 255"
  shows "v > of_int t \<longleftrightarrow> max 0 (min 255 v) > of_int t"
proof -
  have "(of_int t :: rat) < 255" using assms(2) by (metis of_int_less_iff of_int_numeral)
  moreover have "(0::rat) \<le> of_int t" using assms(1) by simp
  ultimately show ?thesis by (auto simp: min_def max_def)
qed

text \<open>
  Rounding to binary64 does not cross a half-integer below 256: these are binary64
  values, and multiples of the unit in the last place of every number below 256.
\<close>

lemma round_half_even_ge:
  fixes v :: "'a::floor_ceiling"
  assumes "of_int k \<le> v"
  shows "k \<le> round_half_even v"
  using round_half_even_bounds[of k v "\<lceil>v\<rceil>"] assms by (simp add: le_of_int_ceiling)

lemma round_half_even_le:
  fixes v :: "'a::floor_ceiling"
  assumes "v \<le> of_int k"
  shows "round_half_even v \<le> k"
  using round_half_even_bounds[of "\<lfloor>v\<rfloor>" v k] assms by simp

lemma half_on_grid:
  assumes "0 < y" and "y < 256"
  shows "\<exists>K. (of_int n / 2 :: rat) = of_int K * 2 powi (binade y - 52)"
proof -
  have y0: "y \<noteq> 0" using assms(1) by simp
  have lo: "2 powi (binade y) \<le> y" using binade_bounds(1)[OF y0] assms(1) by simp
  have e: "binade y < 8"
  proof (rule ccontr)
    assume "\<not> binade y < 8"
    then have "(2::rat) powi 8 \<le> 2 powi (binade y)" by (intro powi_mono2) simp
    then show False using lo assms(2) by simp
  qed
  define m where "m = nat (51 - binade y)"
  have "(2::rat) powi (binade y - 52) * 2 ^ m = 2 powi (binade y - 52) * 2 powi (int m)"
    by simp
  also have "\<dots> = 2 powi (binade y - 52 + int m)" by (simp add: power_int_add)
  also have "binade y - 52 + int m = - 1" using e by (simp add: m_def)
  finally have h: "(2::rat) powi (binade y - 52) * 2 ^ m = 1 / 2" by simp
  have "(of_int (n * 2 ^ m) :: rat) * 2 powi (binade y - 52)
        = of_int n * (2 powi (binade y - 52) * 2 ^ m)" by simp
  also have "\<dots> = of_int n / 2" unfolding h by simp
  finally show ?thesis by metis
qed

lemma fl_ge_half:
  assumes "0 \<le> y" and "y < 256" and "of_int n / 2 \<le> y"
  shows "of_int n / 2 \<le> fl y"
proof (cases "y = 0")
  case True
  then show ?thesis using assms(3) by (simp add: fl_def)
next
  case False
  then have y: "0 < y" using assms(1) by simp
  define u :: rat where "u = 2 powi (binade y - 52)"
  have u: "0 < u" by (simp add: u_def)
  obtain K where K: "(of_int n / 2 :: rat) = of_int K * u"
    using half_on_grid[OF y assms(2), of n] unfolding u_def by blast
  have "of_int K * u \<le> y" using assms(3) K by simp
  then have "of_int K \<le> y / u" using u by (simp add: pos_le_divide_eq)
  then have "K \<le> round_half_even (y / u)" by (rule round_half_even_ge)
  then have "(of_int K :: rat) \<le> of_int (round_half_even (y / u))" by simp
  then have "of_int K * u \<le> of_int (round_half_even (y / u)) * u"
    using u by (simp add: mult_right_mono)
  then show ?thesis using False K by (simp add: fl_def Let_def u_def)
qed

lemma fl_le_half:
  assumes "0 \<le> y" and "y < 256" and "y \<le> of_int n / 2"
  shows "fl y \<le> of_int n / 2"
proof (cases "y = 0")
  case True
  then show ?thesis using assms(3) by (simp add: fl_def)
next
  case False
  then have y: "0 < y" using assms(1) by simp
  define u :: rat where "u = 2 powi (binade y - 52)"
  have u: "0 < u" by (simp add: u_def)
  obtain K where K: "(of_int n / 2 :: rat) = of_int K * u"
    using half_on_grid[OF y assms(2), of n] unfolding u_def by blast
  have "y \<le> of_int K * u" using assms(3) K by simp
  then have "y / u \<le> of_int K" using u by (simp add: pos_divide_le_eq)
  then have "round_half_even (y / u) \<le> K" by (rule round_half_even_le)
  then have "(of_int (round_half_even (y / u)) :: rat) \<le> of_int K" by simp
  then have "of_int (round_half_even (y / u)) * u \<le> of_int K * u"
    using u by (simp add: mult_right_mono)
  then show ?thesis using False K by (simp add: fl_def Let_def u_def)
qed

lemma toUint8Clamp_inverted:
  assumes "0 \<le> C" and "C \<le> 255"
    and nt: "fl (255 - C) \<noteq> of_int \<lfloor>fl (255 - C)\<rfloor> + 1/2"
  shows "toUint8Clamp (fl (255 - C)) = 255 - toUint8Clamp C"
proof -
  define y where "y = 255 - C"
  define D where "D = fl y"
  define j where "j = round_half_even D"
  have y: "0 \<le> y" "y < 256" using assms(1,2) by (simp_all add: y_def)
  have D0: "0 \<le> D" using fl_ge_half[OF y, of 0] y(1) by (simp add: D_def)
  have D255: "D \<le> 255" using fl_le_half[OF y, of 510] assms(1) by (simp add: D_def y_def)
  have near: "\<bar>D - of_int j\<bar> < 1/2"
    unfolding j_def using nt by (intro round_half_even_close) (simp add: D_def y_def)
  have up: "y < of_int j + 1/2"
  proof (rule ccontr)
    assume "\<not> y < of_int j + 1/2"
    then have "of_int (2 * j + 1) / 2 \<le> y" by simp
    from fl_ge_half[OF y this] have "of_int j + 1/2 \<le> D" by (simp add: D_def add_divide_distrib)
    then show False using near by (simp add: abs_less_iff)
  qed
  have dn: "of_int j - 1/2 < y"
  proof (rule ccontr)
    assume "\<not> of_int j - 1/2 < y"
    then have "y \<le> of_int (2 * j - 1) / 2" by (simp add: diff_divide_distrib)
    from fl_le_half[OF y this] have "D \<le> of_int j - 1/2" by (simp add: D_def diff_divide_distrib)
    then show False using near by (simp add: abs_less_iff)
  qed
  have jb: "0 \<le> j" "j \<le> 255"
    using round_half_even_bounds[of 0 D 255] D0 D255 by (simp_all add: j_def)
  have "C - of_int (255 - j) < 1/2" and "- (C - of_int (255 - j)) < 1/2"
    using up dn by (simp_all add: y_def)
  then have "\<bar>C - of_int (255 - j)\<bar> < 1/2" by (simp only: abs_less_iff)
  then have rc: "round_half_even C = 255 - j" by (rule round_half_even_near)
  have "toUint8Clamp D = nat j" using D0 D255 by (simp add: toUint8Clamp_def j_def min_def max_def)
  moreover have "toUint8Clamp C = nat (255 - j)"
    using assms(1,2) rc by (simp add: toUint8Clamp_def min_def max_def)
  ultimately show ?thesis using jb by (simp add: D_def y_def nat_diff_distrib)
qed

lemma fl_half_exact:
  assumes "0 \<le> (of_int n / 2 :: rat)" and "(of_int n / 2 :: rat) < 256"
  shows "fl (of_int n / 2) = of_int n / 2"
  using fl_ge_half[OF assms, of n] fl_le_half[OF assms, of n] by simp

lemma tie_inverted:
  assumes "0 \<le> C" and "C \<le> 255" and tie: "C = of_int \<lfloor>C\<rfloor> + 1/2"
  shows "fl (255 - C) = of_int \<lfloor>fl (255 - C)\<rfloor> + 1/2"
proof -
  define n where "n = 2 * (254 - \<lfloor>C\<rfloor>) + 1"
  have y: "255 - C = of_int n / 2"
    unfolding n_def by (subst tie) (simp add: add_divide_distrib)
  have e: "fl (255 - C) = 255 - C"
    unfolding y using assms(1,2) y by (intro fl_half_exact) simp_all
  have h: "255 - C = of_int (254 - \<lfloor>C\<rfloor>) + 1/2" by (subst tie) simp
  have "\<lfloor>255 - C\<rfloor> = 254 - \<lfloor>C\<rfloor>"
    by (rule floor_unique) (simp_all add: h)
  then show ?thesis unfolding e using h by simp
qed

text \<open>The picture each transform returns for an opaque image, on a cleared canvas.\<close>

lemma createSolidStencil_blank:
  assumes li: "length (data img) = 4 * (width img * height img)" and op: "opaque img"
  shows "fst (createSolidStencil blend img s (blank (width img) (height img)))
         = \<lparr>width = width img, height = height img,
            data = (if 1 < lineThickness s
                    then dilate (lineThickness s) (width img) (height img)
                           (applyStencilEffect (data img) s)
                    else applyStencilEffect (data img) s)\<rparr>"
  using createSolidStencil_eq[OF blank_props li, of blend s]
  by (simp add: Let_def drawImage_blank[OF li op])

lemma createBlackWhiteDesign_blank:
  assumes li: "length (data img) = 4 * (width img * height img)" and op: "opaque img"
  shows "fst (createBlackWhiteDesign blend img s (blank (width img) (height img)))
         = \<lparr>width = width img, height = height img, data = bwLoop (data img) s\<rparr>"
  using createBlackWhiteDesign_eq[OF blank_props li, of blend s]
  by (simp add: Let_def drawImage_blank[OF li op])

lemma createLineSketch_blank:
  assumes li: "length (data img) = 4 * (width img * height img)" and op: "opaque img"
  shows "fst (createLineSketch blend img s (blank (width img) (height img)))
         = \<lparr>width = width img, height = height img,
            data = (if 1 < lineThickness s
                    then dilate (lineThickness s) (width img) (height img)
                           (sketchEdgeData (data img) (width img) (height img) s)
                    else sketchEdgeData (data img) (width img) (height img) s)\<rparr>"
  using createLineSketch_eq[OF blank_props li, of blend s]
  by (simp add: Let_def drawImage_blank[OF li op])

lemma nth_dilate_pixel:
  assumes len: "length d = 4 * (w * h)" and q: "q < w * h" and k: "k < 4"
  shows "dilate t w h d ! (4 * q + k) = 0 \<or> dilate t w h d ! (4 * q + k) = d ! (4 * q + k)"
proof -
  note c = pixel_coords[OF q]
  have "dilate t w h d ! (4 * (q div w * w + q mod w) + k) = 0
        \<or> dilate t w h d ! (4 * (q div w * w + q mod w) + k)
          = d ! (4 * (q div w * w + q mod w) + k)"
    using nth_dilate[OF len c(1) c(2) k, of t] by simp
  then show ?thesis unfolding c(3) .
qed

section \<open>The stored gradient magnitude\<close>

lemma nearestSqrtUpto_spec:
  "nearestSqrtUpto K n \<le> K \<and>
   (0 < nearestSqrtUpto K n \<longrightarrow> (2 * nearestSqrtUpto K n - 1)\<^sup>2 \<le> 4 * n) \<and>
   (nearestSqrtUpto K n < K \<longrightarrow> 4 * n < (2 * nearestSqrtUpto K n + 1)\<^sup>2)"
proof (induction K)
  case 0
  show ?case by simp
next
  case (Suc K)
  show ?case
  proof (cases "(2 * K + 1)\<^sup>2 \<le> 4 * n")
    case True
    then show ?thesis by simp
  next
    case False
    then have r: "nearestSqrtUpto (Suc K) n = nearestSqrtUpto K n" by simp
    show ?thesis
    proof (cases "nearestSqrtUpto K n < K")
      case True
      then show ?thesis unfolding r using Suc.IH by simp
    next
      case False
      then have "nearestSqrtUpto K n = K" using Suc.IH by simp
      then show ?thesis unfolding r using Suc.IH \<open>\<not> (2 * K + 1)\<^sup>2 \<le> 4 * n\<close> by simp
    qed
  qed
qed

lemma nearestSqrtUpto_eqI:
  assumes "r \<le> K" and "0 < r \<Longrightarrow> (2 * r - 1)\<^sup>2 \<le> 4 * n" and "r < K \<Longrightarrow> 4 * n < (2 * r + 1)\<^sup>2"
  shows "nearestSqrtUpto K n = r"
proof -
  define q where "q = nearestSqrtUpto K n"
  have q: "q \<le> K" "0 < q \<Longrightarrow> (2 * q - 1)\<^sup>2 \<le> 4 * n" "q < K \<Longrightarrow> 4 * n < (2 * q + 1)\<^sup>2"
    using nearestSqrtUpto_spec[of K n] by (simp_all add: q_def)
  have "\<not> q < r"
  proof
    assume l: "q < r"
    then have "2 * q + 1 \<le> 2 * r - 1" by simp
    then have a: "(2 * q + 1)\<^sup>2 \<le> (2 * r - 1)\<^sup>2" by (rule power_mono) simp
    have b: "4 * n < (2 * q + 1)\<^sup>2" using q(3) l assms(1) by simp
    have c: "(2 * r - 1)\<^sup>2 \<le> 4 * n" using assms(2) l by simp
    from less_le_trans[OF b a] c show False by linarith
  qed
  moreover have "\<not> r < q"
  proof
    assume l: "r < q"
    then have "2 * r + 1 \<le> 2 * q - 1" by simp
    then have a: "(2 * r + 1)\<^sup>2 \<le> (2 * q - 1)\<^sup>2" by (rule power_mono) simp
    have b: "4 * n < (2 * r + 1)\<^sup>2" using assms(3) l q(1) by simp
    have c: "(2 * q - 1)\<^sup>2 \<le> 4 * n" using q(2) l by simp
    from less_le_trans[OF b a] c show False by linarith
  qed
  ultimately show ?thesis unfolding q_def by simp
qed

text \<open>The byte found by search is the rounded, capped square root.\<close>

lemma nearestSqrtUpto_real:
  "int (nearestSqrtUpto 255 n) = round_half_even (min 255 (sqrt (real n)))"
proof -
  define r where "r = nearestSqrtUpto 255 n"
  have r: "r \<le> 255" "0 < r \<Longrightarrow> (2 * r - 1)\<^sup>2 \<le> 4 * n" "r < 255 \<Longrightarrow> 4 * n < (2 * r + 1)\<^sup>2"
    using nearestSqrtUpto_spec[of 255 n] by (simp_all add: r_def)
  have lo: "real r - 1/2 < sqrt (real n)"
  proof (cases "0 < r")
    case False
    then have "real r - 1/2 < 0" by simp
    also have "0 \<le> sqrt (real n)" by simp
    finally show ?thesis .
  next
    case True
    have "odd ((2 * r - 1)\<^sup>2)" using True by simp
    then have "(2 * r - 1)\<^sup>2 \<noteq> 4 * n" by (metis even_mult_iff even_numeral)
    then have "(2 * r - 1)\<^sup>2 < 4 * n" using r(2)[OF True] by simp
    then have "real ((2 * r - 1)\<^sup>2) < real (4 * n)" by (simp only: of_nat_less_iff)
    moreover have "real (2 * r - 1) = 2 * real r - 1" using True by (simp add: of_nat_diff)
    ultimately have "(2 * real r - 1)\<^sup>2 < 4 * real n" by simp
    then have "(real r - 1/2)\<^sup>2 < real n" by (simp add: power2_eq_square algebra_simps)
    then show ?thesis by (rule real_less_rsqrt)
  qed
  show ?thesis
  proof (cases "r < 255")
    case True
    have "real (4 * n) < real ((2 * r + 1)\<^sup>2)" using r(3)[OF True] by (simp only: of_nat_less_iff)
    then have "4 * real n < (2 * real r + 1)\<^sup>2" by (simp add: add.commute)
    then have "real n < (real r + 1/2)\<^sup>2" by (simp add: power2_eq_square algebra_simps)
    then have hi: "sqrt (real n) < real r + 1/2" by (intro real_less_lsqrt) simp_all
    have "real r + 1/2 < 255" using True by simp
    then have "min 255 (sqrt (real n)) = sqrt (real n)" using hi by simp
    moreover have "\<bar>sqrt (real n) - real r\<bar> < 1/2" using lo hi by linarith
    then have "\<bar>sqrt (real n) - of_int (int r)\<bar> < 1/2" by simp
    moreover note this
    ultimately show ?thesis
      unfolding r_def[symmetric] using round_half_even_near[of "sqrt (real n)" "int r"] by simp
  next
    case False
    then have r255: "r = 255" using r(1) by simp
    have "\<bar>min 255 (sqrt (real n)) - real r\<bar> < 1/2"
      using lo unfolding r255 by (cases "sqrt (real n) \<le> 255") (simp_all add: min_def)
    then have "\<bar>min 255 (sqrt (real n)) - of_int (int r)\<bar> < 1/2" by simp
    then show ?thesis
      unfolding r_def[symmetric] by (rule round_half_even_near[symmetric])
  qed
qed

lemma magnitudeByte_real: "magnitudeByte gx gy = magnitude_real gx gy"
proof -
  define n where "n = nat (gx * gx + gy * gy)"
  have nn: "0 \<le> gx * gx + gy * gy" by simp
  have rn: "real n = real_of_int (gx * gx + gy * gy)" using nn by (simp add: n_def)
  have v: "0 \<le> min 255 (sqrt (real n))" by simp
  have "magnitude_real gx gy = nat (round_half_even (max 0 (min 255 (min 255 (sqrt (real n))))))"
    by (simp add: magnitude_real_def toUint8Clamp_def rn)
  also have "max 0 (min 255 (min 255 (sqrt (real n)))) = min 255 (sqrt (real n))"
    using v by (simp add: max_def)
  also have "nat (round_half_even (min 255 (sqrt (real n)))) = nearestSqrtUpto 255 n"
    using nearestSqrtUpto_real[of n, symmetric] by simp
  finally show ?thesis by (simp add: magnitudeByte_def n_def)
qed

section \<open>The Sobel sums\<close>

lemma sobelSums_P:
  "sobelSums g w x y
        = fold (\<lambda>ky acc.
            fold (\<lambda>kx (gx, gy).
               (gx + int (g ! nat (((int y + ky) * int w + (int x + kx)) * 4)) * sobelX ! nat (ky + 1) ! nat (kx + 1),
                gy + int (g ! nat (((int y + ky) * int w + (int x + kx)) * 4)) * sobelY ! nat (ky + 1) ! nat (kx + 1)))
              [-1..1] acc)
           [-1..1] (0, 0)"
  unfolding sobelSums_def Let_def by (rule refl)

lemma upto_m1_1: "[- 1..1] = [- 1, 0, 1::int]"
  by (simp add: upto.simps)

lemma kernel_fold:
  fixes P :: "int \<Rightarrow> int \<Rightarrow> int"
  shows "fold (\<lambda>ky acc.
            fold (\<lambda>kx (gx, gy).
               (gx + P ky kx * sobelX ! nat (ky + 1) ! nat (kx + 1),
                gy + P ky kx * sobelY ! nat (ky + 1) ! nat (kx + 1)))
              [- 1, 0, 1] acc)
           [- 1, 0, 1] (0, 0)
      = (- P (- 1) (- 1) + P (- 1) 1 - 2 * P 0 (- 1) + 2 * P 0 1 - P 1 (- 1) + P 1 1,
         - P (- 1) (- 1) - 2 * P (- 1) 0 - P (- 1) 1 + P 1 (- 1) + 2 * P 1 0 + P 1 1)"
  by (simp add: sobelX_def sobelY_def)

lemma sum3:
  fixes f :: "nat \<Rightarrow> 'a::comm_ring_1"
  shows "(\<Sum>k < 3. f k) = f 0 + f 1 + f 2"
  by (simp add: eval_nat_numeral)

lemma convolve3_Gx:
  "convolve3 Gx G (Suc x') (Suc y')
      = - G x' y' + G (Suc (Suc x')) y' - 2 * G x' (Suc y') + 2 * G (Suc (Suc x')) (Suc y')
        - G x' (Suc (Suc y')) + G (Suc (Suc x')) (Suc (Suc y'))"
  unfolding convolve3_def sum3 Gx_def by simp

lemma convolve3_Gy:
  "convolve3 Gy G (Suc x') (Suc y')
      = - G x' y' - 2 * G (Suc x') y' - G (Suc (Suc x')) y' + G x' (Suc (Suc y'))
        + 2 * G (Suc x') (Suc (Suc y')) + G (Suc (Suc x')) (Suc (Suc y'))"
  unfolding convolve3_def sum3 Gy_def by simp

lemma pix_index:
  assumes "int b = int y + ky" and "int a = int x + kx"
  shows "nat (((int y + ky) * int w + (int x + kx)) * 4) = 4 * (b * w + a)"
proof -
  have "((int y + ky) * int w + (int x + kx)) * 4 = int (4 * (b * w + a))"
    unfolding assms[symmetric] by simp
  then show ?thesis by (simp only: nat_int)
qed

lemma sobelSums_Suc:
  "sobelSums g w (Suc x') (Suc y')
   = (convolve3 Gx (\<lambda>x y. int (g ! (4 * (y * w + x)))) (Suc x') (Suc y'),
      convolve3 Gy (\<lambda>x y. int (g ! (4 * (y * w + x)))) (Suc x') (Suc y'))"
proof -
  define P where
    "P = (\<lambda>ky kx. int (g ! nat (((int (Suc y') + ky) * int w + (int (Suc x') + kx)) * 4)))"
  define G where "G = (\<lambda>x y. int (g ! (4 * (y * w + x))))"
  have A: "sobelSums g w (Suc x') (Suc y')
      = (- P (- 1) (- 1) + P (- 1) 1 - 2 * P 0 (- 1) + 2 * P 0 1 - P 1 (- 1) + P 1 1,
         - P (- 1) (- 1) - 2 * P (- 1) 0 - P (- 1) 1 + P 1 (- 1) + 2 * P 1 0 + P 1 1)"
    unfolding sobelSums_P upto_m1_1 P_def by (rule kernel_fold)
  have PG: "P ky kx = G a b" if "int b = int (Suc y') + ky" "int a = int (Suc x') + kx"
    for ky kx a b
    unfolding P_def G_def by (simp only: pix_index[OF that])
  have Pv: "P (- 1) (- 1) = G x' y'" "P (- 1) 0 = G (Suc x') y'" "P (- 1) 1 = G (Suc (Suc x')) y'"
    "P 0 (- 1) = G x' (Suc y')" "P 0 1 = G (Suc (Suc x')) (Suc y')"
    "P 1 (- 1) = G x' (Suc (Suc y'))" "P 1 0 = G (Suc x') (Suc (Suc y'))"
    "P 1 1 = G (Suc (Suc x')) (Suc (Suc y'))"
    by (rule PG; simp)+
  show ?thesis
    unfolding A G_def[symmetric] convolve3_Gx convolve3_Gy Pv by (rule refl)
qed

lemma sobelSums_eq:
  assumes "1 \<le> x" and "1 \<le> y"
  shows "sobelSums g w x y
         = (convolve3 Gx (\<lambda>x y. int (g ! (4 * (y * w + x)))) x y,
            convolve3 Gy (\<lambda>x y. int (g ! (4 * (y * w + x)))) x y)"
proof -
  obtain x' where x: "x = Suc x'" using assms(1) by (cases x) simp_all
  obtain y' where y: "y = Suc y'" using assms(2) by (cases y) simp_all
  show ?thesis unfolding x y by (rule sobelSums_Suc)
qed

lemma nth_sketchEdgeData:
  assumes len: "length d = 4 * (w * h)" and x: "x < w" and y: "y < h" and k: "k < 4"
  shows "sketchEdgeData d w h s ! (4 * (y * w + x) + k)
         = (if k < 3
            then toUint8Clamp (lineFinalValue s
                   (if interior w h x y
                    then magnitude_real (convolve3 Gx (grayByte d w) x y)
                           (convolve3 Gy (grayByte d w) x y)
                    else 0))
            else (if interior w h x y then d ! (4 * (y * w + x) + 3) else 0))"
proof -
  define g where "g = grayLoop d"
  have lg: "length g = 4 * (w * h)" using length_grayLoop[OF len] len by (simp add: g_def)
  define e where "e = applySobelEdgeDetection g w h"
  have le: "length e = 4 * (w * h)" by (simp add: e_def length_applySobel lg)
  have p: "y * w + x < w * h" using x y by (rule pixel_number_less)
  have gray: "int (g ! (4 * (b * w + a))) = grayByte d w a b" if "a < w" "b < h" for a b
    using nth_grayLoop[OF len pixel_number_less[OF that], of 0]
    by (simp add: g_def grayByte_def)
  have galpha: "g ! (4 * (y * w + x) + 3) = d ! (4 * (y * w + x) + 3)"
    using nth_grayLoop[OF len p, of 3] by (simp add: g_def)
  have conv: "convolve3 K (\<lambda>x y. int (g ! (4 * (y * w + x)))) x y
              = convolve3 K (grayByte d w) x y" if "interior w h x y" for K
  proof -
    have "int (g ! (4 * ((y + ky - 1) * w + (x + kx - 1)))) = grayByte d w (x + kx - 1) (y + ky - 1)"
      if "kx < 3" "ky < 3" for kx ky
      using that \<open>interior w h x y\<close> by (intro gray) (auto simp: interior_def)
    then show ?thesis
      unfolding convolve3_def by (intro sum.cong refl arg_cong2[where f = "(*)"]) simp
  qed
  have sob: "e ! (4 * (y * w + x) + j)
         = (if interior w h x y
            then (if j < 3 then magnitude_real (convolve3 Gx (grayByte d w) x y)
                                  (convolve3 Gy (grayByte d w) x y)
                  else d ! (4 * (y * w + x) + 3))
            else 0)" if "j < 4" for j
  proof (cases "interior w h x y")
    case True
    then have "1 \<le> x" "1 \<le> y" by (simp_all add: interior_def)
    from sobelSums_eq[OF this, of g w]
    have ss: "sobelSums g w x y
       = (convolve3 Gx (grayByte d w) x y, convolve3 Gy (grayByte d w) x y)"
      unfolding conv[OF True] .
    show ?thesis
      unfolding e_def nth_applySobel[OF lg x y that] ss using True galpha
      by (simp add: magnitudeByte_real)
  next
    case False
    then show ?thesis unfolding e_def nth_applySobel[OF lg x y that] by simp
  qed
  have "sketchEdgeData d w h s ! (4 * (y * w + x) + k)
        = (if k < 3 then toUint8Clamp (lineFinalValue s (e ! (4 * (y * w + x))))
           else e ! (4 * (y * w + x) + k))"
    unfolding sketchEdgeData_def g_def[symmetric] e_def[symmetric]
    by (rule nth_thresholdLoop[OF le p k])
  then show ?thesis using sob[of 0] sob[OF k] k by (cases "k < 3") auto
qed

section \<open>The pictures returned for an opaque image, pixel by pixel\<close>

lemma bw_picture_nth:
  assumes li: "length (data img) = 4 * (width img * height img)" and op: "opaque img"
    and p: "p < width img * height img" and k: "k < 4"
  shows "data (fst (createBlackWhiteDesign blend img s (blank (width img) (height img))))
           ! (4 * p + k)
         = (if k < 3
            then toUint8Clamp (bwFinalValue s (data img ! (4 * p)) (data img ! (4 * p + 1))
                                 (data img ! (4 * p + 2)))
            else data img ! (4 * p + k))"
  unfolding createBlackWhiteDesign_blank[OF li op] using nth_bwLoop[OF li p k, of s] by simp

lemma solid_picture_nth:
  assumes li: "length (data img) = 4 * (width img * height img)" and op: "opaque img"
    and p: "p < width img * height img" and k: "k < 4" and t: "lineThickness s \<le> 1"
  shows "data (fst (createSolidStencil blend img s (blank (width img) (height img))))
           ! (4 * p + k)
         = (if k < 3
            then toUint8Clamp (stencilFinalValue s (data img ! (4 * p)) (data img ! (4 * p + 1))
                                 (data img ! (4 * p + 2)))
            else data img ! (4 * p + k))"
  unfolding createSolidStencil_blank[OF li op]
  using nth_applyStencilEffect[OF li p k, of s] t by simp


lemma toUint8Clamp_line:
  "toUint8Clamp (lineFinalValue s e)
   = (let lineValue = (if int e > threshold s then 0 else 255)
      in if invert s then 255 - lineValue else lineValue)"
  by (simp add: lineFinalValue_def Let_def toUint8Clamp_0 toUint8Clamp_255)

lemma magnitude_real_0: "magnitude_real 0 0 = 0"
  by (simp add: magnitude_real_def toUint8Clamp_0)

lemma magnitude_real_1_1: "magnitude_real 1 1 = 1"
proof -
  have "nearestSqrtUpto 255 2 = 1" by (rule nearestSqrtUpto_eqI) simp_all
  then show ?thesis unfolding magnitudeByte_real[symmetric] by (simp add: magnitudeByte_def)
qed

section \<open>Facts about the example inputs\<close>

lemma onePixel_facts:
  "wf_raster onePixel" "length (data onePixel) = 4 * (width onePixel * height onePixel)"
  "width onePixel = 1" "height onePixel = 1" "data onePixel = [0, 66, 147, 255]"
  "opaque onePixel"
  by (simp_all add: wf_raster_def opaque_def onePixel_def)

lemma whitePixel_facts:
  "wf_raster whitePixel" "length (data whitePixel) = 4 * (width whitePixel * height whitePixel)"
  "width whitePixel = 1" "height whitePixel = 1" "data whitePixel = [255, 255, 255, 255]"
  "opaque whitePixel"
  by (simp_all add: wf_raster_def opaque_def whitePixel_def)

lemma grayPixel_facts:
  "wf_raster grayPixel" "length (data grayPixel) = 4 * (width grayPixel * height grayPixel)"
  "width grayPixel = 1" "height grayPixel = 1" "data grayPixel = [3, 3, 3, 255]"
  "opaque grayPixel"
  by (simp_all add: wf_raster_def opaque_def grayPixel_def)

lemma bluePixel_facts:
  "wf_raster bluePixel" "length (data bluePixel) = 4 * (width bluePixel * height bluePixel)"
  "width bluePixel = 1" "height bluePixel = 1" "data bluePixel = [0, 80, 110, 255]"
  "opaque bluePixel"
  by (simp_all add: wf_raster_def opaque_def bluePixel_def)

lemma rustPixel_facts:
  "wf_raster rustPixel" "length (data rustPixel) = 4 * (width rustPixel * height rustPixel)"
  "width rustPixel = 1" "height rustPixel = 1" "data rustPixel = [200, 100, 50, 255]"
  "opaque rustPixel"
  by (simp_all add: wf_raster_def opaque_def rustPixel_def)

lemma cornerDot_facts:
  "wf_raster cornerDot" "length (data cornerDot) = 4 * (width cornerDot * height cornerDot)"
  "width cornerDot = 3" "height cornerDot = 3"
  by (simp_all add: wf_raster_def cornerDot_def)

lemma opaque_cornerDot: "opaque cornerDot"
proof -
  have "data cornerDot ! (4 * p + 3) = 255" if "p < 9" for p
  proof -
    have "p = 0 \<or> p = 1 \<or> p = 2 \<or> p = 3 \<or> p = 4 \<or> p = 5 \<or> p = 6 \<or> p = 7 \<or> p = 8"
      using that by arith
    then show ?thesis by (auto simp: cornerDot_def)
  qed
  then show ?thesis by (simp add: opaque_def cornerDot_facts(3,4))
qed

text \<open>The pixel (0, 66, 147) at contrast 1.5: the value 19.5, and 235.5 inverted.\<close>

lemma bw_onePixel_plain: "bwFinalValue defaultSettings 0 66 147 = 39 / 2"
  by (simp add: bwFinalValue_def defaultSettings_def luminance_0_66_147 contrastAdjust_teal)

lemma bw_onePixel_inverted:
  "bwFinalValue (defaultSettings\<lparr>invert := True\<rparr>) 0 66 147 = 471 / 2"
  by (simp add: bwFinalValue_def defaultSettings_def luminance_0_66_147 contrastAdjust_teal
      fl_inverted_teal_1)

lemma toUint8Clamp_39_2: "toUint8Clamp (39 / 2 :: rat) = 20"
proof -
  have "round_half_even (39 / 2 :: rat) = (if even (19::int) then 19 else 19 + 1)"
    by (rule round_half_even_tie) simp
  then show ?thesis by (simp add: toUint8Clamp_def)
qed

lemma toUint8Clamp_471_2: "toUint8Clamp (471 / 2 :: rat) = 236"
proof -
  have "round_half_even (471 / 2 :: rat) = (if even (235::int) then 235 else 235 + 1)"
    by (rule round_half_even_tie) simp
  then show ?thesis by (simp add: toUint8Clamp_def)
qed

lemma bw_onePixel_bytes:
  "data (fst (createBlackWhiteDesign sourceOver onePixel defaultSettings (blank 1 1))) ! 0 = 20"
  "data (fst (createBlackWhiteDesign sourceOver onePixel (defaultSettings\<lparr>invert := True\<rparr>)
     (blank 1 1))) ! 0 = 236"
proof -
  have p: "0 < width onePixel * height onePixel" by (simp add: onePixel_facts(3,4))
  show "data (fst (createBlackWhiteDesign sourceOver onePixel defaultSettings (blank 1 1)))
               ! 0 = 20"
    using bw_picture_nth[OF onePixel_facts(2,6) p, of 0 sourceOver defaultSettings]
    by (simp add: onePixel_facts(3,4,5) bw_onePixel_plain toUint8Clamp_39_2)
  show "data (fst (createBlackWhiteDesign sourceOver onePixel
                (defaultSettings\<lparr>invert := True\<rparr>) (blank 1 1))) ! 0 = 236"
    using bw_picture_nth[OF onePixel_facts(2,6) p, of 0 sourceOver
        "defaultSettings\<lparr>invert := True\<rparr>"]
    by (simp add: onePixel_facts(3,4,5) bw_onePixel_inverted toUint8Clamp_471_2)
qed

text \<open>
  The pixel (0, 80, 110) at contrast 1: the computed value is just below 59.5 and is
  stored as 59.
\<close>

lemma bw_bluePixel: "bwFinalValue plainSettings 0 80 110 = 4186940278571007 / 70368744177664"
  by (simp add: bwFinalValue_def plainSettings_def luminance_0_80_110 contrastAdjust_blue)

lemma toUint8Clamp_blue: "toUint8Clamp (4186940278571007 / 70368744177664 :: rat) = 59"
proof -
  have "round_half_even (4186940278571007 / 70368744177664 :: rat) = 59"
    by (rule round_half_even_near) simp
  then show ?thesis by (simp add: toUint8Clamp_def)
qed

lemma toUint8Clamp_119_2: "toUint8Clamp (119 / 2 :: rat) = 60"
proof -
  have "round_half_even (119 / 2 :: rat) = (if even (59::int) then 59 else 59 + 1)"
    by (rule round_half_even_tie) simp
  then show ?thesis by (simp add: toUint8Clamp_def)
qed

text \<open>
  The pixel (200, 100, 50) at contrast 1.5: about 122.55, and about 132.45 inverted; the
  subtraction is not exact.
\<close>

lemma bw_rustPixel_plain:
  "max 0 (min 255 (contrastAdjust (3 / 2) (luminance 200 100 50)))
   = 8623689598972723 / 70368744177664"
  by (simp add: luminance_200_100_50 contrastAdjust_rust)

lemma bw_rustPixel_inverted:
  "fl (255 - 8623689598972723 / 70368744177664) = 2330085041582899 / 17592186044416"
  using fl_inverted_rust_1 by simp

lemma bw_rustPixel_inexact:
  "fl (255 - 8623689598972723 / 70368744177664) \<noteq> 255 - 8623689598972723 / 70368744177664"
  unfolding bw_rustPixel_inverted by simp

lemma bw_rustPixel_no_tie:
  "(2330085041582899 / 17592186044416 :: rat)
   \<noteq> of_int \<lfloor>2330085041582899 / 17592186044416 :: rat\<rfloor> + 1/2"
proof -
  have "\<lfloor>2330085041582899 / 17592186044416 :: rat\<rfloor> = 132"
    by (rule floor_unique) simp_all
  then show ?thesis by simp
qed

lemma toUint8Clamp_rust_inverted:
  "toUint8Clamp (2330085041582899 / 17592186044416 :: rat) = 132"
proof -
  have "round_half_even (2330085041582899 / 17592186044416 :: rat) = 132"
    by (rule round_half_even_near) simp
  then show ?thesis by (simp add: toUint8Clamp_def)
qed

lemma toUint8Clamp_rust: "toUint8Clamp (8623689598972723 / 70368744177664 :: rat) = 123"
proof -
  have "round_half_even (8623689598972723 / 70368744177664 :: rat) = 123"
    by (rule round_half_even_near) simp
  then show ?thesis by (simp add: toUint8Clamp_def)
qed

text \<open>The gray level 3 at contrast 1: the computed value is above 3 by \<open>2\<^sup>-\<^sup>4\<^sup>8\<close>.\<close>

lemma stencil_grayPixel:
  "contrastAdjust 1 (luminance 3 3 3) = 3 + 1 / 2 ^ 48"
  using contrastAdjust_gray3 by (simp add: luminance_3_3_3)

text \<open>The picture \<open>cornerDot\<close>: gray bytes, the gradient at the centre.\<close>

lemma toUint8Clamp_lum_1: "toUint8Clamp (luminance 1 1 1) = 1"
proof -
  have "round_half_even (9007199254740991 / 9007199254740992 :: rat) = 1"
    by (rule round_half_even_near) simp
  then show ?thesis unfolding luminance_1_1_1 toUint8Clamp_def by simp
qed

lemma toUint8Clamp_lum_Suc: "toUint8Clamp (luminance (Suc 0) (Suc 0) (Suc 0)) = Suc 0"
  using toUint8Clamp_lum_1 by (simp only: One_nat_def)

lemma toUint8Clamp_lum_0: "toUint8Clamp (luminance 0 0 0) = 0"
  by (simp add: luminance_0_0_0 toUint8Clamp_0)

lemma grayByte_cornerDot:
  "grayByte (data cornerDot) 3 0 0 = 0" "grayByte (data cornerDot) 3 (Suc 0) 0 = 0"
  "grayByte (data cornerDot) 3 (Suc (Suc 0)) 0 = 0"
  "grayByte (data cornerDot) 3 0 (Suc 0) = 0"
  "grayByte (data cornerDot) 3 (Suc (Suc 0)) (Suc 0) = 0"
  "grayByte (data cornerDot) 3 0 (Suc (Suc 0)) = 0"
  "grayByte (data cornerDot) 3 (Suc 0) (Suc (Suc 0)) = 0"
  "grayByte (data cornerDot) 3 (Suc (Suc 0)) (Suc (Suc 0)) = 1"
  by (simp_all add: grayByte_def cornerDot_def toUint8Clamp_lum_0 toUint8Clamp_lum_Suc)

lemma gradient_cornerDot:
  "convolve3 Gx (grayByte (data cornerDot) 3) (Suc 0) (Suc 0) = 1"
  "convolve3 Gy (grayByte (data cornerDot) 3) (Suc 0) (Suc 0) = 1"
  unfolding convolve3_Gx convolve3_Gy grayByte_cornerDot by simp_all

lemma interior_cornerDot: "interior 3 3 (Suc 0) (Suc 0)" "\<not> interior 3 3 0 0"
  by (simp_all add: interior_def)

lemma sketch_cornerDot_centre:
  "sketchEdgeData (data cornerDot) 3 3 sketchSettings ! 16 = 255"
  "sketchEdgeData (data cornerDot) 3 3 (sketchSettings\<lparr>threshold := 0\<rparr>) ! 16 = 0"
proof -
  have "sketchEdgeData (data cornerDot) 3 3 s ! (4 * (Suc 0 * 3 + Suc 0) + 0)
        = toUint8Clamp (lineFinalValue s
            (magnitude_real (convolve3 Gx (grayByte (data cornerDot) 3) (Suc 0) (Suc 0))
                            (convolve3 Gy (grayByte (data cornerDot) 3) (Suc 0) (Suc 0))))" for s
    using nth_sketchEdgeData[of "data cornerDot" 3 3 "Suc 0" "Suc 0" 0 s]
      interior_cornerDot(1)
    by (simp add: cornerDot_def)
  then have "sketchEdgeData (data cornerDot) 3 3 s ! 16
        = (let lineValue = (if int 1 > threshold s then 0 else 255)
           in if invert s then 255 - lineValue else lineValue)" for s
    unfolding gradient_cornerDot magnitude_real_1_1 toUint8Clamp_line by simp
  then show "sketchEdgeData (data cornerDot) 3 3 sketchSettings ! 16 = 255"
    "sketchEdgeData (data cornerDot) 3 3 (sketchSettings\<lparr>threshold := 0\<rparr>) ! 16 = 0"
    by (simp_all add: sketchSettings_def)
qed

text \<open>
  The black and white picture of \<open>cornerDot\<close> at contrast 1.5 is black everywhere, so a
  line sketch taken from it has no edge.
\<close>

lemma bw_dark:
  assumes "contrast s = 3 / 2" and "\<not> invert s"
  shows "toUint8Clamp (bwFinalValue s 0 0 0) = 0"
    and "toUint8Clamp (bwFinalValue s (Suc 0) (Suc 0) (Suc 0)) = 0"
proof -
  show "toUint8Clamp (bwFinalValue s 0 0 0) = 0"
    unfolding bwFinalValue_def Let_def assms(1) luminance_0_0_0 contrastAdjust_black
    using assms(2) by (simp add: toUint8Clamp_0)
  have "bwFinalValue s 1 1 1 = 0"
    unfolding bwFinalValue_def Let_def assms(1) luminance_1_1_1 contrastAdjust_dot
    using assms(2) by simp
  then have "toUint8Clamp (bwFinalValue s 1 1 1) = 0" by (simp add: toUint8Clamp_0)
  then show "toUint8Clamp (bwFinalValue s (Suc 0) (Suc 0) (Suc 0)) = 0"
    by (simp only: One_nat_def)
qed

lemma bwLoop_cornerDot:
  assumes s: "contrast s = 3 / 2" "\<not> invert s" and q: "q < 9" and k: "k < 3"
  shows "bwLoop (data cornerDot) s ! (4 * q + k) = 0"
proof -
  have k4: "k < 4" using k by simp
  have q': "q < width cornerDot * height cornerDot" using q by (simp add: cornerDot_facts(3,4))
  have "q = 0 \<or> q = 1 \<or> q = 2 \<or> q = 3 \<or> q = 4 \<or> q = 5 \<or> q = 6 \<or> q = 7 \<or> q = 8"
    using q by arith
  then have "toUint8Clamp (bwFinalValue s (data cornerDot ! (4 * q)) (data cornerDot ! (4 * q + 1))
                 (data cornerDot ! (4 * q + 2))) = 0"
    using bw_dark[OF s] by (auto simp: cornerDot_def)
  then show ?thesis using nth_bwLoop[OF cornerDot_facts(2) q' k4, of s] k by simp
qed

lemma grayByte_bw_cornerDot:
  assumes s: "contrast s = 3 / 2" "\<not> invert s" and x: "x < 3" and y: "y < 3"
  shows "grayByte (bwLoop (data cornerDot) s) 3 x y = 0"
proof -
  have q: "y * 3 + x < 9" using x y by simp
  have "bwLoop (data cornerDot) s ! (4 * (y * 3 + x) + 0) = 0"
    "bwLoop (data cornerDot) s ! (4 * (y * 3 + x) + 1) = 0"
    "bwLoop (data cornerDot) s ! (4 * (y * 3 + x) + 2) = 0"
    by (rule bwLoop_cornerDot[OF s q], simp)+
  then show ?thesis unfolding grayByte_def by (simp add: toUint8Clamp_lum_0)
qed

lemma sketch_bw_cornerDot:
  assumes s: "contrast s = 3 / 2" "\<not> invert s" and t: "0 \<le> threshold s'" "\<not> invert s'"
  shows "sketchEdgeData (bwLoop (data cornerDot) s) 3 3 s' ! 16 = 255"
proof -
  have len: "length (bwLoop (data cornerDot) s) = 4 * (3 * 3)"
    by (simp add: length_bwLoop cornerDot_def)
  have g: "convolve3 Gx (grayByte (bwLoop (data cornerDot) s) 3) (Suc 0) (Suc 0) = 0"
    "convolve3 Gy (grayByte (bwLoop (data cornerDot) s) 3) (Suc 0) (Suc 0) = 0"
    unfolding convolve3_Gx convolve3_Gy by (simp_all add: grayByte_bw_cornerDot[OF s])
  have "sketchEdgeData (bwLoop (data cornerDot) s) 3 3 s' ! (4 * (Suc 0 * 3 + Suc 0) + 0)
        = toUint8Clamp (lineFinalValue s'
            (magnitude_real
               (convolve3 Gx (grayByte (bwLoop (data cornerDot) s) 3) (Suc 0) (Suc 0))
               (convolve3 Gy (grayByte (bwLoop (data cornerDot) s) 3) (Suc 0) (Suc 0))))"
    using nth_sketchEdgeData[OF len, of "Suc 0" "Suc 0" 0 s'] interior_cornerDot(1) by simp
  then show ?thesis
    unfolding g magnitude_real_0 toUint8Clamp_line using t by simp
qed

section \<open>Line thickness: one pass from the snapshot\<close>

text \<open>
  C3. On a canvas whose buffer has the length of its dimensions, \<open>applyLineThickness\<close>
  with a thickness above 1 blackens (R, G and B set to 0) exactly the pixels that have
  a black pixel of the buffer as it was before the call within \<open>thickness - 1\<close> in both
  directions, inside the image; every other byte, and every alpha byte, is as before, so
  a pixel blackened by the pass never spreads further. With a thickness of at most 1
  the canvas is returned as it is. On a 20 by 20 picture whose only black pixel is
  \<open>(px, py)\<close>, thickness 3 blackens the 5 by 5 square around it, cut at the border, and
  nothing else.
\<close>

theorem applyLineThickness_dilates:
  assumes len: "length (data c) = 4 * (width c * height c)"
  shows
   "(1 < t \<longrightarrow>
       width (applyLineThickness t c) = width c \<and>
       height (applyLineThickness t c) = height c \<and>
       (\<forall>x < width c. \<forall>y < height c.
          (black (data (applyLineThickness t c)) (width c) x y
             \<longleftrightarrow> nearBlack t (data c) (width c) (height c) x y) \<and>
          (\<forall>k < 4. data (applyLineThickness t c) ! (4 * (y * width c + x) + k)
             = (if k < 3 \<and> nearBlack t (data c) (width c) (height c) x y then 0
                else data c ! (4 * (y * width c + x) + k))))) \<and>
    (t \<le> 1 \<longrightarrow> applyLineThickness t c = c) \<and>
    (width c = 20 \<and> height c = 20 \<and> px < 20 \<and> py < 20 \<and>
     (\<forall>x < 20. \<forall>y < 20. black (data c) 20 x y \<longleftrightarrow> x = px \<and> y = py) \<longrightarrow>
       (\<forall>x < 20. \<forall>y < 20. \<forall>k < 4.
          data (applyLineThickness 3 c) ! (4 * (y * 20 + x) + k)
          = (if k < 3 \<and> \<bar>int x - int px\<bar> \<le> 2 \<and> \<bar>int y - int py\<bar> \<le> 2 then 0
             else data c ! (4 * (y * 20 + x) + k))))"
proof (intro conjI impI)
  assume t: "1 < t"
  note eq = applyLineThickness_eq[OF len t]
  show "width (applyLineThickness t c) = width c" by (simp add: eq)
  show "height (applyLineThickness t c) = height c" by (simp add: eq)
  show "\<forall>x < width c. \<forall>y < height c.
          (black (data (applyLineThickness t c)) (width c) x y
             \<longleftrightarrow> nearBlack t (data c) (width c) (height c) x y) \<and>
          (\<forall>k < 4. data (applyLineThickness t c) ! (4 * (y * width c + x) + k)
             = (if k < 3 \<and> nearBlack t (data c) (width c) (height c) x y then 0
                else data c ! (4 * (y * width c + x) + k)))"
  proof (intro allI impI conjI)
    fix x y assume x: "x < width c" and y: "y < height c"
    have nth: "data (applyLineThickness t c) ! (4 * (y * width c + x) + k)
             = (if k < 3 \<and> nearBlack t (data c) (width c) (height c) x y then 0
                else data c ! (4 * (y * width c + x) + k))" if "k < 4" for k
      using nth_dilate[OF len x y that, of t] by (simp add: eq)
    show "\<And>k. k < 4 \<Longrightarrow> data (applyLineThickness t c) ! (4 * (y * width c + x) + k)
             = (if k < 3 \<and> nearBlack t (data c) (width c) (height c) x y then 0
                else data c ! (4 * (y * width c + x) + k))"
      by (rule nth)
    have self: "nearBlack t (data c) (width c) (height c) x y"
      if "black (data c) (width c) x y"
      unfolding nearBlack_def using that x y t by (intro exI[of _ x] conjI exI[of _ y]) simp_all
    show "black (data (applyLineThickness t c)) (width c) x y
             \<longleftrightarrow> nearBlack t (data c) (width c) (height c) x y"
      using nth[of 0] self by (auto simp: black_def)
  qed
next
  assume "t \<le> 1"
  then show "applyLineThickness t c = c" by (simp add: applyLineThickness_def)
next
  assume h: "width c = 20 \<and> height c = 20 \<and> px < 20 \<and> py < 20 \<and>
     (\<forall>x < 20. \<forall>y < 20. black (data c) 20 x y \<longleftrightarrow> x = px \<and> y = py)"
  then have w: "width c = 20" and hh: "height c = 20" and px: "px < 20" and py: "py < 20"
    and only: "\<And>x y. x < 20 \<Longrightarrow> y < 20 \<Longrightarrow> black (data c) 20 x y \<longleftrightarrow> x = px \<and> y = py"
    by simp_all
  have eq: "applyLineThickness 3 c = c\<lparr>data := dilate 3 20 20 (data c)\<rparr>"
    using applyLineThickness_eq[OF len, of 3] w hh by simp
  have len': "length (data c) = 4 * (20 * 20)" using len w hh by simp
  show "\<forall>x < 20. \<forall>y < 20. \<forall>k < 4.
          data (applyLineThickness 3 c) ! (4 * (y * 20 + x) + k)
          = (if k < 3 \<and> \<bar>int x - int px\<bar> \<le> 2 \<and> \<bar>int y - int py\<bar> \<le> 2 then 0
             else data c ! (4 * (y * 20 + x) + k))"
  proof (intro allI impI)
    fix x y k :: nat assume x: "x < 20" and y: "y < 20" and k: "k < 4"
    have "nearBlack 3 (data c) 20 20 x y \<longleftrightarrow> \<bar>int x - int px\<bar> \<le> 2 \<and> \<bar>int y - int py\<bar> \<le> 2"
    proof
      assume "nearBlack 3 (data c) 20 20 x y"
      then obtain x' y' where "x' < 20" "y' < 20" "black (data c) 20 x' y'"
        "\<bar>int x - int x'\<bar> \<le> 2" "\<bar>int y - int y'\<bar> \<le> 2"
        by (auto simp: nearBlack_def)
      then show "\<bar>int x - int px\<bar> \<le> 2 \<and> \<bar>int y - int py\<bar> \<le> 2"
        using only[of x' y'] by simp
    next
      assume "\<bar>int x - int px\<bar> \<le> 2 \<and> \<bar>int y - int py\<bar> \<le> 2"
      then show "nearBlack 3 (data c) 20 20 x y"
        unfolding nearBlack_def using px py only[of px py]
        by (intro exI[of _ px] conjI exI[of _ py]) simp_all
    qed
    then show "data (applyLineThickness 3 c) ! (4 * (y * 20 + x) + k)
          = (if k < 3 \<and> \<bar>int x - int px\<bar> \<le> 2 \<and> \<bar>int y - int py\<bar> \<le> 2 then 0
             else data c ! (4 * (y * 20 + x) + k))"
      using nth_dilate[OF len' x y k, of 3] by (simp add: eq)
  qed
qed


lemma singleDot_black:
  assumes "x < 20" and "y < 20"
  shows "black (data singleDot) 20 x y \<longleftrightarrow> x = 7 \<and> y = 5"
proof -
  define p where "p = y * 20 + x"
  have p: "p < 400" using assms by (simp add: p_def)
  have "p = 5 * 20 + 7 \<longleftrightarrow> y = 5 \<and> x = 7"
    unfolding p_def by (rule pixel_number_eq) (use assms in simp_all)
  moreover have "((replicate 1600 (255::nat))[428 := 0, 429 := 0, 430 := 0]) ! (4 * p) = 0
                 \<longleftrightarrow> p = 107"
    using p by (simp add: nth_list_update)
  ultimately show ?thesis by (auto simp: black_def singleDot_def p_def)
qed

theorem applyLineThickness_dilates_witness:
  "applyLineThickness 1 singleDot = singleDot \<and>
   black (data (applyLineThickness 3 singleDot)) 20 9 7 \<and>
   data (applyLineThickness 3 singleDot) ! (4 * (7 * 20 + 10)) = 255 \<and>
   data (applyLineThickness 3 singleDot) ! (4 * (7 * 20 + 9) + 3) = 255"
proof -
  have len: "length (data singleDot) = 4 * (width singleDot * height singleDot)"
    by (simp add: singleDot_def)
  have dims: "width singleDot = 20" "height singleDot = 20" by (simp_all add: singleDot_def)
  note dil = applyLineThickness_dilates[OF len, of _ 7 5]
  have a: "applyLineThickness 1 singleDot = singleDot" using dil[of 1] by simp
  have hyp: "width singleDot = 20 \<and> height singleDot = 20 \<and> (7::nat) < 20 \<and> (5::nat) < 20 \<and>
     (\<forall>x < 20. \<forall>y < 20. black (data singleDot) 20 x y \<longleftrightarrow> x = 7 \<and> y = 5)"
    using dims singleDot_black by simp
  have b0: "\<forall>x < 20. \<forall>y < 20. \<forall>k < 4.
      data (applyLineThickness 3 singleDot) ! (4 * (y * 20 + x) + k)
      = (if k < 3 \<and> \<bar>int x - int 7\<bar> \<le> 2 \<and> \<bar>int y - int 5\<bar> \<le> 2 then 0
         else data singleDot ! (4 * (y * 20 + x) + k))"
    using dil[of 3] hyp by blast
  have b: "\<forall>x < 20. \<forall>y < 20. \<forall>k < 4.
      data (applyLineThickness 3 singleDot) ! (4 * (y * 20 + x) + k)
      = (if k < 3 \<and> \<bar>int x - 7\<bar> \<le> 2 \<and> \<bar>int y - 5\<bar> \<le> 2 then 0
         else data singleDot ! (4 * (y * 20 + x) + k))"
    using b0 by (simp only: of_nat_numeral)
  have c: "black (data (applyLineThickness 3 singleDot)) 20 9 7"
    using b[rule_format, of 9 7 0] by (simp add: black_def)
  have "data singleDot ! (4 * (7 * 20 + 10)) = 255"
    by (simp add: singleDot_def)
  then have d: "data (applyLineThickness 3 singleDot) ! (4 * (7 * 20 + 10)) = 255"
    using b[rule_format, of 10 7 0] by simp
  have "data singleDot ! (4 * (7 * 20 + 9) + 3) = 255"
    by (simp add: singleDot_def)
  then have e: "data (applyLineThickness 3 singleDot) ! (4 * (7 * 20 + 9) + 3) = 255"
    using b[rule_format, of 9 7 3] by simp
  show ?thesis using a c d e by blast
qed

section \<open>Byte range of the outputs\<close>

text \<open>
  C9. Whatever the settings (any finite contrast, any threshold and thickness, any
  mode), every byte of every raster that \<open>processImage\<close> returns for a well-formed
  image is at most 255, and the raster has the dimensions and the length of the image.
\<close>

theorem output_bytes_in_range:
  assumes "wf_raster img"
  shows "\<exists>r. processImage blend (Some img) s = Inr r \<and>
           (\<forall>out \<in> outputs r.
              width out = width img \<and> height out = height img \<and>
              length (data out) = 4 * (width img * height img) \<and>
              (\<forall>b \<in> set (data out). b \<le> 255))"
proof -
  have li: "length (data img) = 4 * (width img * height img)" and bi: "bytes (data img)"
    using assms by (simp_all add: wf_raster_def bytes_def)
  define d1 where "d1 = data (drawImage blend img (blank (width img) (height img)))"
  have l1: "length d1 = 4 * (width img * height img)" and b1: "bytes d1"
    unfolding d1_def
    using drawImage_props(3,4)[of img "blank (width img) (height img)" blend] li bi
    by (simp_all add: blank_props bytes_def blank_def)
  have fin: "bytes (if 1 < lineThickness s
                    then dilate (lineThickness s) (width img) (height img) d else d)
             \<and> length (if 1 < lineThickness s
                    then dilate (lineThickness s) (width img) (height img) d else d)
               = 4 * (width img * height img)"
    if "bytes d" "length d = 4 * (width img * height img)" for d
    using that by (simp add: bytes_dilate length_dilate)
  consider (solid) "mode s = ''solid-stencil''" | (bw) "mode s = ''black-white''"
    | (line) "mode s = ''line-sketch''"
    | (other) "mode s \<noteq> ''solid-stencil''" "mode s \<noteq> ''black-white''"
        "mode s \<noteq> ''line-sketch''"
    by blast
  then show ?thesis
  proof cases
    case solid
    have "bytes (applyStencilEffect d1 s)" using b1 by (rule bytes_applyStencilEffect)
    from fin[OF this] show ?thesis
      unfolding processImage_solid_drawn[OF li solid] Let_def d1_def[symmetric]
      by (simp add: outputs_def emptyResult_def length_applyStencilEffect l1 bytes_def)
  next
    case bw
    define b where "b = \<lparr>width = width img, height = height img, data = bwLoop d1 s\<rparr>"
    have bb: "bytes (data b)" "length (data b) = 4 * (width img * height img)"
      "width img = width b" "height img = height b"
      using b1 by (simp_all add: b_def bytes_bwLoop length_bwLoop l1)
    have ld: "length (data (drawImage blend img b)) = 4 * (width img * height img)"
      and bd: "bytes (data (drawImage blend img b))"
      using drawImage_props(3,4)[of img b blend] bb bi li by simp_all
    have "bytes (sketchEdgeData (data (drawImage blend img b)) (width img) (height img) s)"
      "length (sketchEdgeData (data (drawImage blend img b)) (width img) (height img) s)
       = 4 * (width img * height img)"
      using sketchEdgeData_props[OF ld, of s] bd ld by simp_all
    from fin[OF this] bb(1,2) show ?thesis
      unfolding processImage_bw_drawn[OF li bw] Let_def d1_def[symmetric] b_def[symmetric]
      by (simp add: outputs_def emptyResult_def bytes_def b_def)
  next
    case line
    have "bytes (sketchEdgeData d1 (width img) (height img) s)"
      "length (sketchEdgeData d1 (width img) (height img) s)
       = 4 * (width img * height img)"
      using sketchEdgeData_props[OF l1, of s] b1 l1 by simp_all
    from fin[OF this] show ?thesis
      unfolding processImage_line_drawn[OF li line] Let_def d1_def[symmetric]
      by (simp add: outputs_def emptyResult_def bytes_def)
  next
    case other
    then show ?thesis
      by (simp add: processImage_def Let_def outputs_def emptyResult_def)
  qed
qed

lemma wf_onePixel: "wf_raster onePixel"
  by (simp add: wf_raster_def onePixel_def)

lemma opaque_onePixel: "opaque onePixel"
  by (simp add: opaque_def onePixel_def)

theorem output_bytes_in_range_witness:
  "\<exists>r out. processImage sourceOver (Some onePixel) defaultSettings = Inr r \<and>
     solidStencil r = Some out \<and> length (data out) = 4 \<and>
     data out ! 0 \<le> 255 \<and> data out ! 1 \<le> 255 \<and> data out ! 2 \<le> 255 \<and> data out ! 3 \<le> 255"
proof -
  obtain r where r: "processImage sourceOver (Some onePixel) defaultSettings = Inr r"
    and all: "\<forall>out \<in> outputs r.
              width out = width onePixel \<and> height out = height onePixel \<and>
              length (data out) = 4 * (width onePixel * height onePixel) \<and>
              (\<forall>b \<in> set (data out). b \<le> 255)"
    using output_bytes_in_range[OF wf_onePixel, of sourceOver defaultSettings] by blast
  have li: "length (data onePixel) = 4 * (width onePixel * height onePixel)"
    by (simp add: onePixel_def)
  have m: "mode defaultSettings = ''solid-stencil''" by (simp add: defaultSettings_def)
  obtain out where out: "solidStencil r = Some out"
    using r unfolding processImage_solid[OF li m opaque_onePixel] by (auto simp: emptyResult_def)
  then have mem: "out \<in> outputs r" by (simp add: outputs_def)
  have len: "length (data out) = 4" using all mem by (simp add: onePixel_def)
  have "data out ! k \<le> 255" if "k < 4" for k
    using all mem len that by (simp add: nth_mem)
  then show ?thesis using r out len by auto
qed

section \<open>The line sketch of the two modes\<close>

text \<open>
  C10. For a well-formed image whose pixels are all opaque, the \<open>lineSketch\<close> raster of
  \<open>black-white\<close> mode and that of \<open>line-sketch\<close> mode are the same raster, for the same
  other settings: \<open>createLineSketch\<close> draws the image over the canvas before it reads it,
  and an opaque image replaces what the black and white step left there.
\<close>

theorem lineSketch_same_in_both_modes:
  assumes "wf_raster img" and "opaque img"
  shows "\<exists>r1 r2 ls.
           processImage blend (Some img) (s\<lparr>mode := ''black-white''\<rparr>) = Inr r1 \<and>
           processImage blend (Some img) (s\<lparr>mode := ''line-sketch''\<rparr>) = Inr r2 \<and>
           lineSketch r1 = Some ls \<and> lineSketch r2 = Some ls"
proof -
  have li: "length (data img) = 4 * (width img * height img)"
    using assms(1) by (simp add: wf_raster_def)
  define b where
    "b = \<lparr>width = width img, height = height img,
          data = bwLoop (data img) (s\<lparr>mode := ''black-white''\<rparr>)\<rparr>"
  have "drawImage blend img b = b\<lparr>data := data img\<rparr>"
    using assms(2) li by (intro drawImage_opaque) (simp_all add: b_def)
  then have d: "data (drawImage blend img b) = data img" by simp
  have e: "sketchEdgeData d w h (s\<lparr>mode := m\<rparr>) = sketchEdgeData d w h s" for d w h m
    by (simp add: sketchEdgeData_def thresholdLoop_def lineFinalValue_def)
  show ?thesis
    unfolding processImage_bw[OF li _ assms(2), of "s\<lparr>mode := ''black-white''\<rparr>" blend, simplified]
      processImage_line[OF li _ assms(2), of "s\<lparr>mode := ''line-sketch''\<rparr>" blend, simplified]
      Let_def b_def[symmetric] d e
    by (simp add: emptyResult_def)
qed

text \<open>
  An instance where the redraw matters: \<open>cornerDot\<close> with threshold 0. The black and
  white picture, which is on the canvas when the line sketch starts, is black
  everywhere, and a sketch read from it would be white at the centre; the sketch of both
  modes is black there, as the gradient of the image demands.
\<close>

theorem lineSketch_same_in_both_modes_witness:
  "\<exists>r1 r2 bw ls.
     processImage sourceOver (Some cornerDot)
       (sketchSettings\<lparr>threshold := 0, mode := ''black-white''\<rparr>) = Inr r1 \<and>
     processImage sourceOver (Some cornerDot)
       (sketchSettings\<lparr>threshold := 0, mode := ''line-sketch''\<rparr>) = Inr r2 \<and>
     lineSketch r1 = Some ls \<and> lineSketch r2 = Some ls \<and> data ls ! 16 = 0 \<and>
     blackWhite r1 = Some bw \<and>
     sketchEdgeData (data bw) 3 3 (sketchSettings\<lparr>threshold := 0\<rparr>) ! 16 = 255"
proof -
  define s0 where "s0 = sketchSettings\<lparr>threshold := 0\<rparr>"
  obtain r1 r2 ls where
    r1: "processImage sourceOver (Some cornerDot) (s0\<lparr>mode := ''black-white''\<rparr>) = Inr r1"
    and r2: "processImage sourceOver (Some cornerDot) (s0\<lparr>mode := ''line-sketch''\<rparr>) = Inr r2"
    and l1: "lineSketch r1 = Some ls" and l2: "lineSketch r2 = Some ls"
    using lineSketch_same_in_both_modes[OF cornerDot_facts(1) opaque_cornerDot, of sourceOver s0]
    by blast
  have m: "mode (s0\<lparr>mode := ''line-sketch''\<rparr>) = ''line-sketch''"
    "mode (s0\<lparr>mode := ''black-white''\<rparr>) = ''black-white''" by simp_all
  have t: "lineThickness s0 = 1" by (simp add: s0_def sketchSettings_def)
  have e: "sketchEdgeData d w h (s0\<lparr>mode := m'\<rparr>) = sketchEdgeData d w h s0" for d w h m'
    by (simp add: sketchEdgeData_def thresholdLoop_def lineFinalValue_def)
  have "lineSketch r2 = Some \<lparr>width = 3, height = 3,
           data = sketchEdgeData (data cornerDot) 3 3 s0\<rparr>"
    using r2 unfolding processImage_line[OF cornerDot_facts(2) m(1) opaque_cornerDot]
    by (auto simp: t e emptyResult_def cornerDot_facts(3,4))
  then have ls: "data ls ! 16 = 0"
    using l2 sketch_cornerDot_centre(2) by (auto simp: s0_def)
  have bw: "blackWhite r1 = Some \<lparr>width = 3, height = 3,
           data = bwLoop (data cornerDot) (s0\<lparr>mode := ''black-white''\<rparr>)\<rparr>"
    using r1 unfolding processImage_bw[OF cornerDot_facts(2) m(2) opaque_cornerDot] Let_def
    by (auto simp: emptyResult_def cornerDot_facts(3,4))
  have "sketchEdgeData (bwLoop (data cornerDot) (s0\<lparr>mode := ''black-white''\<rparr>)) 3 3 s0 ! 16
        = 255"
    by (rule sketch_bw_cornerDot) (simp_all add: s0_def sketchSettings_def)
  then show ?thesis
    using r1 r2 l1 l2 ls bw unfolding s0_def by auto
qed

section \<open>The dispatcher\<close>

text \<open>
  C6. The dispatcher fills the result by mode: \<open>solid-stencil\<close> fills \<open>solidStencil\<close>
  alone, \<open>black-white\<close> fills \<open>blackWhite\<close> and \<open>lineSketch\<close> and leaves \<open>solidStencil\<close>
  absent, \<open>line-sketch\<close> fills \<open>lineSketch\<close> alone; this for every decoded image and
  every other setting.
\<close>

theorem processImage_fills_by_mode:
  "(mode s = ''solid-stencil'' \<longrightarrow>
      (\<exists>r out. processImage blend (Some img) s = Inr r \<and> solidStencil r = Some out
         \<and> blackWhite r = None \<and> lineSketch r = None)) \<and>
   (mode s = ''black-white'' \<longrightarrow>
      (\<exists>r bw ls. processImage blend (Some img) s = Inr r \<and> blackWhite r = Some bw
         \<and> lineSketch r = Some ls \<and> solidStencil r = None)) \<and>
   (mode s = ''line-sketch'' \<longrightarrow>
      (\<exists>r ls. processImage blend (Some img) s = Inr r \<and> lineSketch r = Some ls
         \<and> solidStencil r = None \<and> blackWhite r = None))"
  by (simp add: processImage_def emptyResult_def Let_def split: prod.splits)

theorem processImage_fills_by_mode_witness:
  "(\<exists>r out. processImage sourceOver (Some (blank 2 2))
        \<lparr>threshold = 128, contrast = 3/2, lineThickness = 2, invert = False,
         mode = ''solid-stencil''\<rparr> = Inr r
      \<and> solidStencil r = Some out \<and> blackWhite r = None \<and> lineSketch r = None) \<and>
   (\<exists>r bw ls. processImage sourceOver (Some (blank 2 2))
        \<lparr>threshold = 128, contrast = 3/2, lineThickness = 2, invert = False,
         mode = ''black-white''\<rparr> = Inr r
      \<and> blackWhite r = Some bw \<and> lineSketch r = Some ls \<and> solidStencil r = None) \<and>
   (\<exists>r ls. processImage sourceOver (Some (blank 2 2))
        \<lparr>threshold = 128, contrast = 3/2, lineThickness = 2, invert = False,
         mode = ''line-sketch''\<rparr> = Inr r
      \<and> lineSketch r = Some ls \<and> solidStencil r = None \<and> blackWhite r = None)"
  using
    processImage_fills_by_mode [of "\<lparr>threshold = 128, contrast = 3/2, lineThickness = 2,
      invert = False, mode = ''solid-stencil''\<rparr>" sourceOver "blank 2 2"]
    processImage_fills_by_mode [of "\<lparr>threshold = 128, contrast = 3/2, lineThickness = 2,
      invert = False, mode = ''black-white''\<rparr>" sourceOver "blank 2 2"]
    processImage_fills_by_mode [of "\<lparr>threshold = 128, contrast = 3/2, lineThickness = 2,
      invert = False, mode = ''line-sketch''\<rparr>" sourceOver "blank 2 2"]
  by simp

text \<open>
  C5, as the source has it. A mode outside the three literals is no error: no branch of
  the dispatcher runs and the promise resolves with a result whose three fields are all
  absent. The only failure of \<open>processImage\<close> is an image that does not load.
\<close>

theorem processImage_unknown_mode:
  assumes "mode s \<noteq> ''solid-stencil''" and "mode s \<noteq> ''black-white''"
    and "mode s \<noteq> ''line-sketch''"
  shows "processImage blend (Some img) s = Inr emptyResult"
  using assms by (simp add: processImage_def Let_def)

theorem processImage_unknown_mode_witness:
  "processImage sourceOver (Some (blank 2 2))
     \<lparr>threshold = 128, contrast = 3/2, lineThickness = 2, invert = False, mode = ''sepia''\<rparr>
   = Inr emptyResult"
  by (rule processImage_unknown_mode) simp_all

text \<open>
  The claim as the specification states it (an unrecognised mode fails at once with
  an \<open>UnsupportedMode\<close> error) is false: the call below does not fail.
\<close>

theorem processImage_unknown_mode_counterexample:
  "\<not> isl (processImage sourceOver (Some (blank 1 1))
       \<lparr>threshold = 0, contrast = 1, lineThickness = 1, invert = False, mode = ''sepia''\<rparr>)"
  by (simp add: processImage_def Let_def)

section \<open>Solid stencil\<close>

text \<open>
  C1, as the source has it. \<open>applyStencilEffect\<close> sets R, G and B of every pixel of the
  buffer it is given to white (255) when the number the source computes for the pixel
  is strictly greater than the threshold, and to black (0) otherwise, the two swapped
  when \<open>invert\<close> is set; alpha is kept. The number compared is the contrast-adjusted
  luminance as the source evaluates it, \<open>contrastAdjust\<close> of \<open>luminance\<close>: every operation
  of the formula of section 4.1 rounded to binary64, the weights being the nearest
  binary64 values, and the result \<^emph>\<open>not\<close> clamped. For \<open>0 \<le> threshold < 255\<close> comparing
  this number clamped to \<open>[0, 255]\<close> gives the same result. The buffer is the one read
  from the canvas; for an opaque image it holds the bytes of the image, and the picture
  returned by \<open>createSolidStencil\<close> on the cleared canvas is the result, dilated when
  \<open>lineThickness > 1\<close>. For every image and all settings the R, G and B bytes of the
  picture returned are 0 or 255.
\<close>

theorem solid_stencil_binary:
  assumes "wf_raster img" and "p < width img * height img"
  shows
   "(\<forall>k < 3. applyStencilEffect (data img) s ! (4 * p + k)
       = (if contrastAdjust (contrast s)
               (luminance (data img ! (4 * p)) (data img ! (4 * p + 1)) (data img ! (4 * p + 2)))
             > of_int (threshold s)
          then (if invert s then 0 else 255)
          else (if invert s then 255 else 0))) \<and>
    applyStencilEffect (data img) s ! (4 * p + 3) = data img ! (4 * p + 3) \<and>
    (0 \<le> threshold s \<and> threshold s < 255 \<longrightarrow>
       (contrastAdjust (contrast s)
          (luminance (data img ! (4 * p)) (data img ! (4 * p + 1)) (data img ! (4 * p + 2)))
          > of_int (threshold s)
        \<longleftrightarrow>
        max 0 (min 255 (contrastAdjust (contrast s)
          (luminance (data img ! (4 * p)) (data img ! (4 * p + 1)) (data img ! (4 * p + 2)))))
          > of_int (threshold s))) \<and>
    (opaque img \<longrightarrow>
       fst (createSolidStencil blend img s (blank (width img) (height img)))
         = \<lparr>width = width img, height = height img,
            data = (if 1 < lineThickness s
                    then dilate (lineThickness s) (width img) (height img)
                           (applyStencilEffect (data img) s)
                    else applyStencilEffect (data img) s)\<rparr>) \<and>
    (\<forall>k < 3.
       data (fst (createSolidStencil blend img s (blank (width img) (height img)))) ! (4 * p + k) = 0
       \<or> data (fst (createSolidStencil blend img s (blank (width img) (height img)))) ! (4 * p + k)
           = 255)"
proof -
  have li: "length (data img) = 4 * (width img * height img)"
    using assms(1) by (simp add: wf_raster_def)
  note nth = nth_applyStencilEffect[OF li assms(2), of _ s]
  have rgb: "applyStencilEffect (data img) s ! (4 * p + k)
       = (if contrastAdjust (contrast s)
               (luminance (data img ! (4 * p)) (data img ! (4 * p + 1)) (data img ! (4 * p + 2)))
             > of_int (threshold s)
          then (if invert s then 0 else 255)
          else (if invert s then 255 else 0))" if "k < 3" for k
    using nth[of k] that by (simp add: toUint8Clamp_stencil)
  have alpha: "applyStencilEffect (data img) s ! (4 * p + 3) = data img ! (4 * p + 3)"
    using nth[of 3] by simp
  define d1 where "d1 = data (drawImage blend img (blank (width img) (height img)))"
  have l1: "length d1 = 4 * (width img * height img)"
    unfolding d1_def
    using drawImage_props(3)[of img "blank (width img) (height img)" blend] li
    by (simp add: blank_props)
  have le: "length (applyStencilEffect d1 s) = 4 * (width img * height img)"
    by (simp add: length_applyStencilEffect l1)
  have out: "fst (createSolidStencil blend img s (blank (width img) (height img)))
      = \<lparr>width = width img, height = height img,
         data = (if 1 < lineThickness s
                 then dilate (lineThickness s) (width img) (height img)
                        (applyStencilEffect d1 s)
                 else applyStencilEffect d1 s)\<rparr>"
    using createSolidStencil_eq[OF blank_props li, of blend s] by (simp add: Let_def d1_def)
  have bin: "data (fst (createSolidStencil blend img s (blank (width img) (height img))))
               ! (4 * p + k) = 0
       \<or> data (fst (createSolidStencil blend img s (blank (width img) (height img)))) ! (4 * p + k)
           = 255" if "k < 3" for k
  proof -
    have k4: "k < 4" using that by simp
    have b: "applyStencilEffect d1 s ! (4 * p + k) = 0
             \<or> applyStencilEffect d1 s ! (4 * p + k) = 255"
      using nth_applyStencilEffect[OF l1 assms(2) k4, of s] that
      by (simp add: toUint8Clamp_stencil)
    show ?thesis
      unfolding out using b nth_dilate_pixel[OF le assms(2) k4, of "lineThickness s"] by auto
  qed
  have pic: "fst (createSolidStencil blend img s (blank (width img) (height img)))
         = \<lparr>width = width img, height = height img,
            data = (if 1 < lineThickness s
                    then dilate (lineThickness s) (width img) (height img)
                           (applyStencilEffect (data img) s)
                    else applyStencilEffect (data img) s)\<rparr>" if "opaque img"
    using that by (rule createSolidStencil_blank[OF li])
  show ?thesis
    using rgb alpha bin clamp_threshold pic
    by (intro conjI allI impI) blast+
qed

theorem solid_stencil_binary_witness:
  "applyStencilEffect (data rustPixel) defaultSettings ! 0 = 0 \<and>
   applyStencilEffect (data whitePixel) defaultSettings ! 0 = 255 \<and>
   applyStencilEffect (data whitePixel) defaultSettings ! 3 = 255 \<and>
   max 0 (min 255 (contrastAdjust (3 / 2) (luminance 255 255 255))) > 128 \<and>
   data (fst (createSolidStencil sourceOver whitePixel defaultSettings (blank 1 1)))
     = dilate 2 1 1 (applyStencilEffect (data whitePixel) defaultSettings) \<and>
   (data (fst (createSolidStencil sourceOver whitePixel defaultSettings (blank 1 1))) ! 0 = 0 \<or>
    data (fst (createSolidStencil sourceOver whitePixel defaultSettings (blank 1 1))) ! 0 = 255)"
proof -
  have p: "0 < width whitePixel * height whitePixel" by (simp add: whitePixel_def)
  have c: "contrastAdjust (3 / 2) (luminance 255 255 255) = 1275 / 4"
    by (simp only: luminance_255_255_255 contrastAdjust_white_default)
  note t = solid_stencil_binary[OF whitePixel_facts(1) p, of defaultSettings sourceOver]
  have "\<forall>k < 3. applyStencilEffect (data whitePixel) defaultSettings ! (4 * 0 + k)
       = (if contrastAdjust (contrast defaultSettings)
               (luminance (data whitePixel ! (4 * 0)) (data whitePixel ! (4 * 0 + 1))
                  (data whitePixel ! (4 * 0 + 2)))
             > of_int (threshold defaultSettings)
          then (if invert defaultSettings then 0 else 255)
          else (if invert defaultSettings then 255 else 0))"
    using t by blast
  from this[rule_format, of 0]
  have a: "applyStencilEffect (data whitePixel) defaultSettings ! 0 = 255"
    by (simp add: whitePixel_facts(5) defaultSettings_def c)
  have "applyStencilEffect (data whitePixel) defaultSettings ! (4 * 0 + 3)
        = data whitePixel ! (4 * 0 + 3)"
    using t by blast
  then have b: "applyStencilEffect (data whitePixel) defaultSettings ! 3 = 255"
    by (simp add: whitePixel_facts(5))
  have "\<forall>k < 3.
       data (fst (createSolidStencil sourceOver whitePixel defaultSettings
          (blank (width whitePixel) (height whitePixel)))) ! (4 * 0 + k) = 0
       \<or> data (fst (createSolidStencil sourceOver whitePixel defaultSettings
          (blank (width whitePixel) (height whitePixel)))) ! (4 * 0 + k) = 255"
    using t by blast
  from this[rule_format, of 0]
  have d: "data (fst (createSolidStencil sourceOver whitePixel defaultSettings (blank 1 1))) ! 0 = 0
      \<or> data (fst (createSolidStencil sourceOver whitePixel defaultSettings (blank 1 1))) ! 0 = 255"
    by (simp add: whitePixel_facts(3,4))
  have e: "max 0 (min 255 (contrastAdjust (3 / 2) (luminance 255 255 255))) > (128::rat)"
    by (simp add: c)
  have pr: "0 < width rustPixel * height rustPixel" by (simp add: rustPixel_def)
  have cr: "contrastAdjust (3 / 2) (luminance 200 100 50) = 8623689598972723 / 70368744177664"
    by (simp only: luminance_200_100_50 contrastAdjust_rust)
  have "\<forall>k < 3. applyStencilEffect (data rustPixel) defaultSettings ! (4 * 0 + k)
       = (if contrastAdjust (contrast defaultSettings)
               (luminance (data rustPixel ! (4 * 0)) (data rustPixel ! (4 * 0 + 1))
                  (data rustPixel ! (4 * 0 + 2)))
             > of_int (threshold defaultSettings)
          then (if invert defaultSettings then 0 else 255)
          else (if invert defaultSettings then 255 else 0))"
    using solid_stencil_binary[OF rustPixel_facts(1) pr, of defaultSettings sourceOver] by blast
  from this[rule_format, of 0]
  have g: "applyStencilEffect (data rustPixel) defaultSettings ! 0 = 0"
    by (simp add: rustPixel_facts(5) defaultSettings_def cr)
  have "fst (createSolidStencil sourceOver whitePixel defaultSettings
              (blank (width whitePixel) (height whitePixel)))
         = \<lparr>width = width whitePixel, height = height whitePixel,
            data = (if 1 < lineThickness defaultSettings
                    then dilate (lineThickness defaultSettings) (width whitePixel)
                           (height whitePixel)
                           (applyStencilEffect (data whitePixel) defaultSettings)
                    else applyStencilEffect (data whitePixel) defaultSettings)\<rparr>"
    using t whitePixel_facts(6) by blast
  then have f: "data (fst (createSolidStencil sourceOver whitePixel defaultSettings (blank 1 1)))
     = dilate 2 1 1 (applyStencilEffect (data whitePixel) defaultSettings)"
    by (simp add: whitePixel_facts(3,4) defaultSettings_def)
  show ?thesis using a b d e f g by blast
qed

text \<open>
  The claim as the specification states it compares the value \<open>C\<close> of the formula of
  section 4.1, clamped, with the threshold. The source departs from it in two ways. It
  does not clamp: at threshold 255 and contrast 3 a white pixel has the
  contrast-adjusted value 510, and the source paints it white, the specification's
  formula black. And it computes in binary64: for the gray level 3 at contrast 1 the
  formula gives exactly 3, which is not greater than the threshold 3, while the source
  computes \<open>3 + 2\<^sup>-\<^sup>4\<^sup>8\<close> and paints the pixel white.
\<close>

theorem solid_stencil_clamped_counterexample:
  "data (fst (createSolidStencil sourceOver whitePixel hardSettings (blank 1 1))) ! 0 = 255 \<and>
   spec_solid hardSettings 255 255 255 = 0 \<and>
   data (fst (createSolidStencil sourceOver grayPixel lowSettings (blank 1 1))) ! 0 = 255 \<and>
   spec_C (contrast lowSettings) 3 3 3 = 3 \<and>
   spec_solid lowSettings 3 3 3 = 0"
proof -
  have c: "contrastAdjust 3 (luminance 255 255 255) = 510"
    by (simp only: luminance_255_255_255 contrastAdjust_white)
  have pw: "0 < width whitePixel * height whitePixel" by (simp add: whitePixel_facts(3,4))
  have a: "data (fst (createSolidStencil sourceOver whitePixel hardSettings (blank 1 1))) ! 0
           = 255"
    using solid_picture_nth[OF whitePixel_facts(2,6) pw, of 0 hardSettings sourceOver]
    by (simp add: whitePixel_facts(3,4,5) toUint8Clamp_stencil hardSettings_def c)
  have b: "spec_solid hardSettings 255 255 255 = 0"
    by (simp add: spec_solid_def spec_C_def spec_L_def hardSettings_def)
  have pg: "0 < width grayPixel * height grayPixel" by (simp add: grayPixel_facts(3,4))
  have d: "data (fst (createSolidStencil sourceOver grayPixel lowSettings (blank 1 1))) ! 0
           = 255"
    using solid_picture_nth[OF grayPixel_facts(2,6) pg, of 0 lowSettings sourceOver]
    by (simp add: grayPixel_facts(3,4,5) toUint8Clamp_stencil lowSettings_def
        stencil_grayPixel)
  have e: "spec_C (contrast lowSettings) 3 3 3 = 3"
    by (simp add: spec_C_def spec_L_def lowSettings_def)
  have f: "spec_solid lowSettings 3 3 3 = 0"
    unfolding spec_solid_def e by (simp add: lowSettings_def)
  show ?thesis using a b d e f by simp
qed

section \<open>Black and white\<close>

text \<open>
  C7, as the source has it. The loop of \<open>createBlackWhiteDesign\<close> sets R, G and B of
  every pixel of the buffer it is given to one byte and keeps alpha. The byte is the
  store, by \<open>toUint8Clamp\<close> (rounding to the nearest integer, ties to even), of a
  binary64 number: the contrast-adjusted luminance as the source evaluates it (every
  operation of the formula of section 4.1 rounded to binary64, the weights being the
  nearest binary64 values), clamped to \<open>[0, 255]\<close>, called \<open>C\<close> below; with \<open>invert\<close> the
  number stored is the binary64 difference \<open>fl (255 - C)\<close>. The buffer is the one read
  from the canvas; for an opaque image it holds the bytes of the image, and the picture
  returned on the cleared canvas is the result. Threshold and line thickness play no
  part, and nothing is dilated.
\<close>

theorem black_white_pixels:
  assumes "wf_raster img" and "p < width img * height img"
  shows
   "(\<forall>k < 3. bwLoop (data img) s ! (4 * p + k)
       = toUint8Clamp
           (let C = max 0 (min 255 (contrastAdjust (contrast s)
                      (luminance (data img ! (4 * p)) (data img ! (4 * p + 1))
                         (data img ! (4 * p + 2)))))
            in if invert s then fl (255 - C) else C)) \<and>
    bwLoop (data img) s ! (4 * p + 3) = data img ! (4 * p + 3) \<and>
    (opaque img \<longrightarrow>
       fst (createBlackWhiteDesign blend img s (blank (width img) (height img)))
         = \<lparr>width = width img, height = height img, data = bwLoop (data img) s\<rparr>) \<and>
    createBlackWhiteDesign blend img (s\<lparr>threshold := t, lineThickness := l\<rparr>)
        (blank (width img) (height img))
      = createBlackWhiteDesign blend img s (blank (width img) (height img))"
proof -
  have li: "length (data img) = 4 * (width img * height img)"
    using assms(1) by (simp add: wf_raster_def)
  note nth = nth_bwLoop[OF li assms(2), of _ s]
  have rgb: "bwLoop (data img) s ! (4 * p + k)
       = toUint8Clamp
           (let C = max 0 (min 255 (contrastAdjust (contrast s)
                      (luminance (data img ! (4 * p)) (data img ! (4 * p + 1))
                         (data img ! (4 * p + 2)))))
            in if invert s then fl (255 - C) else C)" if "k < 3" for k
    using nth[of k] that by (simp add: bwFinalValue_def Let_def)
  have alpha: "bwLoop (data img) s ! (4 * p + 3) = data img ! (4 * p + 3)"
    using nth[of 3] by simp
  have same: "createBlackWhiteDesign blend img (s\<lparr>threshold := t, lineThickness := l\<rparr>) c
      = createBlackWhiteDesign blend img s c" for c
    by (simp add: createBlackWhiteDesign_def bwLoop_def bwFinalValue_def)
  have pic: "fst (createBlackWhiteDesign blend img s (blank (width img) (height img)))
         = \<lparr>width = width img, height = height img, data = bwLoop (data img) s\<rparr>"
    if "opaque img"
    using that by (rule createBlackWhiteDesign_blank[OF li])
  show ?thesis
    using rgb alpha same pic
    by (intro conjI allI impI) blast+
qed

theorem black_white_pixels_witness:
  "data (fst (createBlackWhiteDesign sourceOver onePixel defaultSettings (blank 1 1))) ! 0 = 20 \<and>
   data (fst (createBlackWhiteDesign sourceOver onePixel defaultSettings (blank 1 1))) ! 3 = 255 \<and>
   bwLoop (data rustPixel) (defaultSettings\<lparr>invert := True\<rparr>) ! 0 = 132"
proof -
  have p: "0 < width onePixel * height onePixel" by (simp add: onePixel_def)
  note t = black_white_pixels[OF onePixel_facts(1) p, of defaultSettings sourceOver]
  have "fst (createBlackWhiteDesign sourceOver onePixel defaultSettings
              (blank (width onePixel) (height onePixel)))
      = \<lparr>width = width onePixel, height = height onePixel,
         data = bwLoop (data onePixel) defaultSettings\<rparr>"
    using t onePixel_facts(6) by blast
  then have out: "fst (createBlackWhiteDesign sourceOver onePixel defaultSettings (blank 1 1))
      = \<lparr>width = 1, height = 1, data = bwLoop (data onePixel) defaultSettings\<rparr>"
    by (simp add: onePixel_facts(3,4))
  have "\<forall>k < 3. bwLoop (data onePixel) defaultSettings ! (4 * 0 + k)
       = toUint8Clamp
           (let C = max 0 (min 255 (contrastAdjust (contrast defaultSettings)
                      (luminance (data onePixel ! (4 * 0)) (data onePixel ! (4 * 0 + 1))
                         (data onePixel ! (4 * 0 + 2)))))
            in if invert defaultSettings then fl (255 - C) else C)"
    using t by blast
  from this[rule_format, of 0]
  have a: "bwLoop (data onePixel) defaultSettings ! 0 = 20"
    by (simp add: onePixel_facts(5) defaultSettings_def luminance_0_66_147 contrastAdjust_teal
        toUint8Clamp_39_2)
  have "bwLoop (data onePixel) defaultSettings ! (4 * 0 + 3) = data onePixel ! (4 * 0 + 3)"
    using t by blast
  then have b: "bwLoop (data onePixel) defaultSettings ! 3 = 255"
    by (simp add: onePixel_facts(5))
  have pr: "0 < width rustPixel * height rustPixel" by (simp add: rustPixel_def)
  have "\<forall>k < 3. bwLoop (data rustPixel) (defaultSettings\<lparr>invert := True\<rparr>) ! (4 * 0 + k)
       = toUint8Clamp
           (let C = max 0 (min 255 (contrastAdjust (contrast (defaultSettings\<lparr>invert := True\<rparr>))
                      (luminance (data rustPixel ! (4 * 0)) (data rustPixel ! (4 * 0 + 1))
                         (data rustPixel ! (4 * 0 + 2)))))
            in if invert (defaultSettings\<lparr>invert := True\<rparr>) then fl (255 - C) else C)"
    using black_white_pixels[OF rustPixel_facts(1) pr,
        of "defaultSettings\<lparr>invert := True\<rparr>" sourceOver]
    by blast
  from this[rule_format, of 0]
  have c: "bwLoop (data rustPixel) (defaultSettings\<lparr>invert := True\<rparr>) ! 0 = 132"
    unfolding Let_def
    by (simp add: rustPixel_facts(5) defaultSettings_def bw_rustPixel_plain
        fl_inverted_rust_1 toUint8Clamp_rust_inverted)
  show ?thesis unfolding out using a b c by simp
qed

text \<open>
  The claim as the specification states it makes the output channel equal to the value
  \<open>C\<close> of the formula of section 4.1. The byte written is not that value, nor that value
  rounded: for the pixel (0, 80, 110) at contrast 1 the formula gives \<open>C = 59.5\<close>, whose
  rounding to the nearest integer with ties to even is 60; the source computes a
  binary64 number just below 59.5 and writes 59.
\<close>

theorem black_white_pixels_counterexample:
  "data (fst (createBlackWhiteDesign sourceOver bluePixel plainSettings (blank 1 1))) ! 0 = 59 \<and>
   spec_C (contrast plainSettings) 0 80 110 = 119 / 2 \<and>
   toUint8Clamp (spec_C (contrast plainSettings) 0 80 110) = 60"
proof -
  have p: "0 < width bluePixel * height bluePixel" by (simp add: bluePixel_facts(3,4))
  have a: "data (fst (createBlackWhiteDesign sourceOver bluePixel plainSettings (blank 1 1))) ! 0
           = 59"
    using bw_picture_nth[OF bluePixel_facts(2,6) p, of 0 sourceOver plainSettings]
    by (simp add: bluePixel_facts(3,4,5) bw_bluePixel toUint8Clamp_blue)
  have b: "spec_C (contrast plainSettings) 0 80 110 = 119 / 2"
    by (simp add: spec_C_def spec_L_def plainSettings_def)
  show ?thesis using a unfolding b by (simp add: toUint8Clamp_119_2)
qed

section \<open>Inversion of the black and white picture\<close>

text \<open>
  C8, as the source has it. On bytes \<open>x \<mapsto> 255 - x\<close> is an involution. For an opaque
  image the picture with \<open>invert\<close> set holds the byte stored for the binary64 number
  \<open>fl (255 - C)\<close>, not the inversion of the byte stored for \<open>C\<close>. The two agree, and
  inverting once more gives back the picture without \<open>invert\<close>, at every pixel for which
  \<open>fl (255 - C)\<close> is not half-way between two integers (\<open>C\<close> is then not half-way
  either). Alpha is the same in both pictures.
\<close>

theorem black_white_inversion:
  assumes "wf_raster img" and "opaque img" and "p < width img * height img" and "k < 3"
    and "C = max 0 (min 255 (contrastAdjust (contrast s)
               (luminance (data img ! (4 * p)) (data img ! (4 * p + 1)) (data img ! (4 * p + 2)))))"
    and "fl (255 - C) \<noteq> of_int \<lfloor>fl (255 - C)\<rfloor> + 1/2"
  shows
   "(\<forall>x \<le> 255. 255 - (255 - x) = (x::nat)) \<and>
    data (fst (createBlackWhiteDesign blend img (s\<lparr>invert := True\<rparr>)
            (blank (width img) (height img)))) ! (4 * p + k)
      = 255 - data (fst (createBlackWhiteDesign blend img (s\<lparr>invert := False\<rparr>)
                      (blank (width img) (height img)))) ! (4 * p + k) \<and>
    255 - data (fst (createBlackWhiteDesign blend img (s\<lparr>invert := True\<rparr>)
                  (blank (width img) (height img)))) ! (4 * p + k)
      = data (fst (createBlackWhiteDesign blend img (s\<lparr>invert := False\<rparr>)
                (blank (width img) (height img)))) ! (4 * p + k) \<and>
    data (fst (createBlackWhiteDesign blend img (s\<lparr>invert := True\<rparr>)
            (blank (width img) (height img)))) ! (4 * p + 3)
      = data (fst (createBlackWhiteDesign blend img (s\<lparr>invert := False\<rparr>)
                (blank (width img) (height img)))) ! (4 * p + 3) \<and>
    C \<noteq> of_int \<lfloor>C\<rfloor> + 1/2"
proof -
  have li: "length (data img) = 4 * (width img * height img)"
    using assms(1) by (simp add: wf_raster_def)
  have k4: "k < 4" using assms(4) by simp
  have C: "0 \<le> C" "C \<le> 255" using assms(5) by simp_all
  have plain: "bwLoop (data img) (s\<lparr>invert := False\<rparr>) ! (4 * p + k) = toUint8Clamp C"
    using nth_bwLoop[OF li assms(3) k4, of "s\<lparr>invert := False\<rparr>"] assms(4,5)
    by (simp add: bwFinalValue_def Let_def)
  have inv: "bwLoop (data img) (s\<lparr>invert := True\<rparr>) ! (4 * p + k)
             = toUint8Clamp (fl (255 - C))"
    using nth_bwLoop[OF li assms(3) k4, of "s\<lparr>invert := True\<rparr>"] assms(4,5)
    by (simp add: bwFinalValue_def Let_def)
  have r: "toUint8Clamp (fl (255 - C)) = 255 - toUint8Clamp C"
    using C assms(6) by (rule toUint8Clamp_inverted)
  have le: "toUint8Clamp C \<le> 255" by (rule toUint8Clamp_le)
  have a3: "bwLoop (data img) s' ! (4 * p + 3) = data img ! (4 * p + 3)" for s'
    using nth_bwLoop[OF li assms(3), of 3 s'] by simp
  have nt: "C \<noteq> of_int \<lfloor>C\<rfloor> + 1/2"
    using tie_inverted[OF C] assms(6) by blast
  show ?thesis
    unfolding createBlackWhiteDesign_blank[OF li assms(2)]
    using plain inv r le a3 nt by simp
qed

text \<open>
  An instance where the subtraction is not exact: the pixel (200, 100, 50) at contrast
  1.5 has \<open>C\<close> about 122.55, stored as 123, and \<open>fl (255 - C)\<close> about 132.45, stored as
  132.
\<close>

theorem black_white_inversion_witness:
  "data (fst (createBlackWhiteDesign sourceOver rustPixel (defaultSettings\<lparr>invert := True\<rparr>)
       (blank 1 1))) ! 0
   = 255 - data (fst (createBlackWhiteDesign sourceOver rustPixel
                   (defaultSettings\<lparr>invert := False\<rparr>) (blank 1 1))) ! 0 \<and>
   data (fst (createBlackWhiteDesign sourceOver rustPixel
           (defaultSettings\<lparr>invert := False\<rparr>) (blank 1 1))) ! 0 = 123 \<and>
   fl (255 - max 0 (min 255 (contrastAdjust (3 / 2) (luminance 200 100 50))))
   \<noteq> 255 - max 0 (min 255 (contrastAdjust (3 / 2) (luminance 200 100 50)))"
proof -
  have p: "0 < width rustPixel * height rustPixel" by (simp add: rustPixel_def)
  have c: "8623689598972723 / 70368744177664
           = max 0 (min 255 (contrastAdjust (contrast defaultSettings)
               (luminance (data rustPixel ! (4 * 0)) (data rustPixel ! (4 * 0 + 1))
                  (data rustPixel ! (4 * 0 + 2)))))"
    using bw_rustPixel_plain by (simp add: rustPixel_facts(5) defaultSettings_def)
  have h: "fl (255 - 8623689598972723 / 70368744177664)
           \<noteq> of_int \<lfloor>fl (255 - 8623689598972723 / 70368744177664)\<rfloor> + 1/2"
    unfolding bw_rustPixel_inverted by (rule bw_rustPixel_no_tie)
  from black_white_inversion[OF rustPixel_facts(1,6) p _ c h, of 0 sourceOver]
  have a: "data (fst (createBlackWhiteDesign sourceOver rustPixel
                 (defaultSettings\<lparr>invert := True\<rparr>) (blank 1 1))) ! 0
      = 255 - data (fst (createBlackWhiteDesign sourceOver rustPixel
                   (defaultSettings\<lparr>invert := False\<rparr>) (blank 1 1))) ! 0"
    by (simp add: rustPixel_facts(3,4))
  have v: "bwFinalValue (defaultSettings\<lparr>invert := False\<rparr>) 200 100 50
        = 8623689598972723 / 70368744177664"
    using bw_rustPixel_plain by (simp add: bwFinalValue_def defaultSettings_def)
  have b: "data (fst (createBlackWhiteDesign sourceOver rustPixel
           (defaultSettings\<lparr>invert := False\<rparr>) (blank 1 1))) ! 0 = 123"
    using bw_picture_nth[OF rustPixel_facts(2,6) p, of 0 sourceOver
        "defaultSettings\<lparr>invert := False\<rparr>"]
    by (simp add: rustPixel_facts(3,4,5) v toUint8Clamp_rust)
  show ?thesis using a b bw_rustPixel_inexact unfolding bw_rustPixel_plain by simp
qed

text \<open>
  The claim as the specification states it (the picture with \<open>invert\<close> is the pointwise
  inversion of the picture without) fails at a tie: for the pixel (0, 66, 147) at
  contrast 1.5, \<open>C = 19.5\<close> is stored as 20, and \<open>255 - C = 235.5\<close> as 236, not 235.
\<close>

theorem black_white_inversion_counterexample:
  "data (fst (createBlackWhiteDesign sourceOver onePixel (defaultSettings\<lparr>invert := True\<rparr>)
       (blank 1 1))) ! 0 = 236 \<and>
   data (fst (createBlackWhiteDesign sourceOver onePixel defaultSettings (blank 1 1))) ! 0 = 20 \<and>
   data (fst (createBlackWhiteDesign sourceOver onePixel (defaultSettings\<lparr>invert := True\<rparr>)
       (blank 1 1))) ! 0
   \<noteq> 255 - data (fst (createBlackWhiteDesign sourceOver onePixel defaultSettings
                   (blank 1 1))) ! 0"
  unfolding bw_onePixel_bytes by simp

section \<open>Line sketch\<close>




section \<open>Alpha\<close>

text \<open>
  C4, where the source departs from it. The Sobel stage starts from a zero-filled
  array and copies alpha for interior pixels only, so every border pixel of a line
  sketch has alpha 0 whatever the input: in \<open>cornerDot\<close>, whose pixels are all opaque,
  the sketch keeps alpha 255 at the centre and has alpha 0 at the corner.
\<close>

theorem line_sketch_border_alpha:
  "data cornerDot ! 3 = 255 \<and>
   data (fst (createLineSketch sourceOver cornerDot sketchSettings (blank 3 3))) ! 3 = 0 \<and>
   data (fst (createLineSketch sourceOver cornerDot sketchSettings (blank 3 3))) ! 19 = 255"
proof -
  have out: "fst (createLineSketch sourceOver cornerDot sketchSettings (blank 3 3))
      = \<lparr>width = 3, height = 3, data = sketchEdgeData (data cornerDot) 3 3 sketchSettings\<rparr>"
    using createLineSketch_blank[OF cornerDot_facts(2) opaque_cornerDot,
        of sourceOver sketchSettings]
    by (simp add: cornerDot_facts(3,4) sketchSettings_def)
  have a: "sketchEdgeData (data cornerDot) 3 3 sketchSettings ! (4 * (0 * 3 + 0) + 3) = 0"
    using nth_sketchEdgeData[of "data cornerDot" 3 3 0 0 3 sketchSettings]
      interior_cornerDot(2)
    by (simp add: cornerDot_def)
  have b: "sketchEdgeData (data cornerDot) 3 3 sketchSettings ! (4 * (Suc 0 * 3 + Suc 0) + 3)
           = data cornerDot ! (4 * (Suc 0 * 3 + Suc 0) + 3)"
    using nth_sketchEdgeData[of "data cornerDot" 3 3 "Suc 0" "Suc 0" 3 sketchSettings]
      interior_cornerDot(1)
    by (simp add: cornerDot_def)
  have c: "data cornerDot ! 19 = 255" "data cornerDot ! 3 = 255" by (simp_all add: cornerDot_def)
  show ?thesis unfolding out using a b c by simp
qed

end
